theory Spec2Isabelle
  imports Complex_Main
begin

section \<open>Data model of \<^verbatim>\<open>quadtree.h\<close>\<close>

text \<open>
  The coordinate type \<^verbatim>\<open>T\<close> of the templates (default \<^verbatim>\<open>double\<close>) is a type
  parameter of the model, an ordered field: comparisons, \<open>+\<close>, \<open>-\<close>, \<open>/ 2\<close>, \<open>min\<close> and
  \<open>max\<close> are exact. Rounding and NaN are outside the model.

  \<^verbatim>\<open>QuadTreeAABB\<close> keeps the eight members of the struct. \<open>top\<close>, \<open>x\<close> and \<open>y\<close> carry a
  prime, since the plain names are taken in HOL.
\<close>

record 'a QuadTreeAABB =
  left :: 'a
  top' :: 'a
  right :: 'a
  bottom :: 'a
  x' :: 'a
  y' :: 'a
  width :: 'a
  height :: 'a

definition set_dimensions :: "'a::linordered_field QuadTreeAABB \<Rightarrow> 'a QuadTreeAABB" where
  "set_dimensions a = a\<lparr>width := bottom a - top' a, height := right a - left a\<rparr>"

definition set_center :: "'a::linordered_field QuadTreeAABB \<Rightarrow> 'a QuadTreeAABB" where
  "set_center a = a\<lparr>x' := (left a + right a) / 2, y' := (top' a + bottom a) / 2\<rparr>"

definition verify :: "'a::linordered_field QuadTreeAABB \<Rightarrow> bool" where
  "verify a = (left a < right a \<and> top' a < bottom a)"

definition intersects :: "'a::linordered_field QuadTreeAABB \<Rightarrow> 'a QuadTreeAABB \<Rightarrow> bool" where
  "intersects a other =
     (left a < right other \<and> right a > left other \<and>
      top' a < bottom other \<and> bottom a > top' other)"

definition contains :: "'a::linordered_field QuadTreeAABB \<Rightarrow> 'a \<Rightarrow> 'a \<Rightarrow> bool" where
  "contains a px py = (px > left a \<and> px < right a \<and> py > top' a \<and> py < bottom a)"

text \<open>
  \<^verbatim>\<open>QuadTreeObject\<close>: \<^verbatim>\<open>user_data\<close> is an opaque pointer (an address, a \<open>nat\<close>) and
  \<^verbatim>\<open>id\<close> a \<^verbatim>\<open>size_t\<close> that is only ever compared for equality. The members \<open>bounds\<close>
  and \<open>id\<close> are suffixed, \<open>bounds\<close> being a member of the node too.
\<close>

record 'a QuadTreeObject =
  bounds_obj :: "'a QuadTreeAABB"
  user_data :: nat
  removed :: bool
  id_obj :: nat

text \<open>
  A node of \<^verbatim>\<open>class QuadTree\<close>. The scalar members are the record \<open>node\<close>; the pair
  \<^verbatim>\<open>children\<close>/\<^verbatim>\<open>has_children\<close> is the constructor of the tree: \<open>Leaf\<close> is
  \<^verbatim>\<open>has_children == false\<close> with the empty vector, \<open>Quad\<close> is \<^verbatim>\<open>has_children == true\<close>
  with \<^verbatim>\<open>children[0..3]\<close> (\<^verbatim>\<open>split\<close> sets both, \<^verbatim>\<open>merge\<close> clears both, nothing else
  writes either). \<^verbatim>\<open>object_count\<close> and \<^verbatim>\<open>level\<close> are \<^verbatim>\<open>size_t\<close>; \<^verbatim>\<open>object_count\<close> is
  incremented only below \<^verbatim>\<open>_Capacity\<close> and decremented only above zero, so \<open>nat\<close>
  holds it without wrap-around. The back pointer \<^verbatim>\<open>root\<close> (the parent) is not a field:
  it is only used by \<^verbatim>\<open>resolve_max_bounds\<close> to climb to the ancestors, and the model
  recomputes each ancestor as the recursion of \<open>insert_qt\<close> and \<open>remove_qt\<close> unwinds.
  The vector \<^verbatim>\<open>objects\<close> has \<^verbatim>\<open>_Capacity\<close> entries from the constructor on and is never
  resized, so each loop \<^verbatim>\<open>for (i = 0; i < _Capacity; i++)\<close> is a recursion over the list.
\<close>

record 'a node =
  bounds :: "'a QuadTreeAABB"
  max_bounds :: "'a QuadTreeAABB"
  object_count :: nat
  objects :: "'a QuadTreeObject list"
  level :: nat

datatype 'a QuadTree =
    Leaf "'a node"
  | Quad "'a node" "'a QuadTree" "'a QuadTree" "'a QuadTree" "'a QuadTree"

fun node_of :: "'a QuadTree \<Rightarrow> 'a node" where
  "node_of (Leaf nd) = nd"
| "node_of (Quad nd c0 c1 c2 c3) = nd"

fun has_children :: "'a QuadTree \<Rightarrow> bool" where
  "has_children (Leaf nd) = False"
| "has_children (Quad nd c0 c1 c2 c3) = True"

fun get_children :: "'a QuadTree \<Rightarrow> 'a QuadTree list" where
  "get_children (Leaf nd) = []"
| "get_children (Quad nd c0 c1 c2 c3) = [c0, c1, c2, c3]"

text \<open>The outcomes that are not a returned \<^verbatim>\<open>bool\<close>: the \<^verbatim>\<open>throw std::out_of_range\<close> of
  \<^verbatim>\<open>insert\<close>, and the end of \<^verbatim>\<open>remove\<close> reached without a \<^verbatim>\<open>return\<close> statement
  (undefined behaviour for a function returning \<^verbatim>\<open>bool\<close>).\<close>

datatype fault = OutOfRange | MissingReturn

section \<open>Construction and \<^verbatim>\<open>split\<close>\<close>

text \<open>
  \<^verbatim>\<open>objects.resize(_Capacity)\<close> value-initialises the slots (all members zero) and the
  default member initialiser sets \<^verbatim>\<open>removed = true\<close>. Neither constructor writes
  \<^verbatim>\<open>max_bounds\<close>: what a new node holds there is whatever the memory held, the
  parameter \<open>u\<close> of the model.
\<close>

definition zero_aabb :: "'a::linordered_field QuadTreeAABB" where
  "zero_aabb = \<lparr>left = 0, top' = 0, right = 0, bottom = 0, x' = 0, y' = 0, width = 0, height = 0\<rparr>"

definition empty_object :: "'a::linordered_field QuadTreeObject" where
  "empty_object = \<lparr>bounds_obj = zero_aabb, user_data = 0, removed = True, id_obj = 0\<rparr>"

definition new_node :: "nat \<Rightarrow> 'a::linordered_field QuadTreeAABB \<Rightarrow> 'a QuadTreeAABB \<Rightarrow> 'a node" where
  "new_node C u b =
     \<lparr>bounds = b, max_bounds = u, object_count = 0, objects = replicate C empty_object, level = 0\<rparr>"

definition QuadTree_new :: "nat \<Rightarrow> 'a::linordered_field QuadTreeAABB \<Rightarrow> 'a QuadTreeAABB \<Rightarrow> 'a QuadTree" where
  "QuadTree_new C u b = Leaf (new_node C u b)"

text \<open>The local \<^verbatim>\<open>child_aabb\<close> of \<^verbatim>\<open>split\<close> after its four edges are assigned and
  \<^verbatim>\<open>set_center\<close>, \<^verbatim>\<open>set_dimensions\<close> have run.\<close>

definition child_aabb :: "'a::linordered_field \<Rightarrow> 'a \<Rightarrow> 'a \<Rightarrow> 'a \<Rightarrow> 'a QuadTreeAABB" where
  "child_aabb l t r b =
     set_dimensions (set_center (zero_aabb\<lparr>left := l, top' := t, right := r, bottom := b\<rparr>))"

definition new_child :: "nat \<Rightarrow> 'a::linordered_field QuadTreeAABB \<Rightarrow> nat \<Rightarrow> 'a QuadTreeAABB \<Rightarrow> 'a QuadTree" where
  "new_child C u lvl b = Leaf ((new_node C u b)\<lparr>level := lvl + 1\<rparr>)"

text \<open>\<^verbatim>\<open>if (!has_children) split();\<close> seen from the caller: the node's members and its four
  children afterwards. \<open>u i\<close> is the uninitialised \<^verbatim>\<open>max_bounds\<close> of the new child \<open>i\<close>.
  \<^verbatim>\<open>split\<close> calls \<^verbatim>\<open>shared_from_this()\<close> for the children's back pointer: the node is owned
  by a \<^verbatim>\<open>shared_ptr\<close>, as \<^verbatim>\<open>enable_shared_from_this\<close> requires (on any other node the call
  throws \<^verbatim>\<open>std::bad_weak_ptr\<close>). The model is the code on nodes so owned.\<close>

fun split_parts :: "nat \<Rightarrow> (nat \<Rightarrow> 'a::linordered_field QuadTreeAABB) \<Rightarrow> 'a QuadTree
    \<Rightarrow> 'a node \<times> 'a QuadTree \<times> 'a QuadTree \<times> 'a QuadTree \<times> 'a QuadTree" where
  "split_parts C u (Quad nd c0 c1 c2 c3) = (nd, c0, c1, c2, c3)"
| "split_parts C u (Leaf nd) =
     (let b = bounds nd in
      (nd,
       new_child C (u 0) (level nd) (child_aabb (left b) (top' b) (x' b) (y' b)),
       new_child C (u 1) (level nd) (child_aabb (x' b) (top' b) (right b) (y' b)),
       new_child C (u 2) (level nd) (child_aabb (x' b) (y' b) (right b) (bottom b)),
       new_child C (u 3) (level nd) (child_aabb (left b) (y' b) (x' b) (bottom b))))"

definition split :: "nat \<Rightarrow> (nat \<Rightarrow> 'a::linordered_field QuadTreeAABB) \<Rightarrow> 'a QuadTree \<Rightarrow> 'a QuadTree" where
  "split C u n = (case split_parts C u n of (nd, c0, c1, c2, c3) \<Rightarrow> Quad nd c0 c1 c2 c3)"

section \<open>\<^verbatim>\<open>merge\<close>, \<^verbatim>\<open>get_total_objects\<close>, \<^verbatim>\<open>remove_empty_nodes\<close>\<close>

fun merge :: "'a QuadTree \<Rightarrow> 'a QuadTree" where
  "merge (Leaf nd) = Leaf nd"
| "merge (Quad nd c0 c1 c2 c3) =
     (let m0 = merge c0; m1 = merge c1; m2 = merge c2; m3 = merge c3 in Leaf nd)"

fun get_total_objects :: "'a QuadTree \<Rightarrow> nat" where
  "get_total_objects (Leaf nd) = object_count nd"
| "get_total_objects (Quad nd c0 c1 c2 c3) =
     object_count nd + (get_total_objects c0 + get_total_objects c1 +
                        get_total_objects c2 + get_total_objects c3)"

fun remove_empty_nodes :: "'a QuadTree \<Rightarrow> 'a QuadTree" where
  "remove_empty_nodes (Leaf nd) = Leaf nd"
| "remove_empty_nodes (Quad nd c0 c1 c2 c3) =
     (let n = Quad nd (remove_empty_nodes c0) (remove_empty_nodes c1)
                      (remove_empty_nodes c2) (remove_empty_nodes c3)
      in if get_total_objects n < 1 then merge n else n)"

section \<open>\<^verbatim>\<open>resolve_max_bounds\<close>\<close>

text \<open>One pass of the first loop: the four edges are computed from \<^verbatim>\<open>bounds\<close> and the
  slot, the other members of \<^verbatim>\<open>max_bounds\<close> stay.\<close>

definition slot_step :: "'a::linordered_field QuadTreeAABB \<Rightarrow> 'a QuadTreeAABB \<Rightarrow> 'a QuadTreeObject
    \<Rightarrow> 'a QuadTreeAABB" where
  "slot_step b mb ob =
     (if \<not> removed ob then
        (let mb' = mb\<lparr>left := min (left b) (left (bounds_obj ob)),
                      top' := min (top' b) (top' (bounds_obj ob)),
                      right := max (right b) (right (bounds_obj ob)),
                      bottom := max (bottom b) (bottom (bounds_obj ob))\<rparr>
         in if \<not> verify mb' then b else mb')
      else mb)"

text \<open>One pass of the second loop: here the edges are computed from \<^verbatim>\<open>max_bounds\<close> itself.\<close>

definition child_step :: "'a::linordered_field QuadTreeAABB \<Rightarrow> 'a QuadTreeAABB \<Rightarrow> 'a QuadTree
    \<Rightarrow> 'a QuadTreeAABB" where
  "child_step b mb c =
     (let cm = max_bounds (node_of c);
          mb' = mb\<lparr>left := min (left mb) (left cm),
                    top' := min (top' mb) (top' cm),
                    right := max (right mb) (right cm),
                    bottom := max (bottom mb) (bottom cm)\<rparr>
      in if \<not> verify mb' then b else mb')"

text \<open>The body of \<^verbatim>\<open>resolve_max_bounds\<close> up to the call on the parent.\<close>

definition resolve_node :: "'a::linordered_field node \<Rightarrow> 'a QuadTree list \<Rightarrow> 'a node" where
  "resolve_node nd cs =
     nd\<lparr>max_bounds := foldl (child_step (bounds nd))
                          (foldl (slot_step (bounds nd)) (bounds nd) (objects nd)) cs\<rparr>"

fun resolve_max_bounds :: "'a::linordered_field QuadTree \<Rightarrow> 'a QuadTree" where
  "resolve_max_bounds (Leaf nd) = Leaf (resolve_node nd [])"
| "resolve_max_bounds (Quad nd c0 c1 c2 c3) = Quad (resolve_node nd [c0, c1, c2, c3]) c0 c1 c2 c3"

section \<open>\<^verbatim>\<open>insert\<close>\<close>

text \<open>The loop of the \<^verbatim>\<open>else\<close> branch: the first slot with \<^verbatim>\<open>removed\<close> set takes the
  object's \<^verbatim>\<open>bounds\<close>, \<^verbatim>\<open>user_data\<close> and \<^verbatim>\<open>id\<close>. \<open>None\<close>: the loop ended without
  finding one.\<close>

fun place_slot :: "'a QuadTreeObject \<Rightarrow> 'a QuadTreeObject list \<Rightarrow> 'a QuadTreeObject list option" where
  "place_slot ob [] = None"
| "place_slot ob (s # ss) =
     (if removed s
      then Some (s\<lparr>bounds_obj := bounds_obj ob, user_data := user_data ob,
                   id_obj := id_obj ob, removed := False\<rparr> # ss)
      else map_option ((#) s) (place_slot ob ss))"

text \<open>The \<^verbatim>\<open>else\<close> branch of \<^verbatim>\<open>insert\<close> on a node with a free slot: fill the slot,
  \<^verbatim>\<open>resolve_max_bounds()\<close>, \<^verbatim>\<open>object_count++\<close>. The children \<open>cs\<close> are only read.\<close>

definition place_node :: "'a::linordered_field QuadTreeObject \<Rightarrow> 'a node \<Rightarrow> 'a QuadTree list
    \<Rightarrow> 'a node option" where
  "place_node ob nd cs =
     (case place_slot ob (objects nd) of
        None \<Rightarrow> None
      | Some os \<Rightarrow>
          (let nd1 = resolve_node (nd\<lparr>objects := os\<rparr>) cs
           in Some (nd1\<lparr>object_count := object_count nd1 + 1\<rparr>)))"

fun with_fields :: "'a QuadTree \<Rightarrow> 'a node \<Rightarrow> 'a QuadTree" where
  "with_fields (Leaf nd) nd' = Leaf nd'"
| "with_fields (Quad nd c0 c1 c2 c3) nd' = Quad nd' c0 c1 c2 c3"

text \<open>
  \<^verbatim>\<open>insert\<close> (\<open>insert_qt\<close>, the plain name being the one of sets). The result is the outcome (a fault, or the returned \<^verbatim>\<open>bool\<close>) and the
  node afterwards; \<open>None\<close> is a call that does not return (with \<^verbatim>\<open>_Capacity == 0\<close> every
  new child is full at once and splits again). The children are tried in order and
  \<^verbatim>\<open>&&\<close> stops at the first that returns \<^verbatim>\<open>true\<close>. A child that placed the object has
  run \<^verbatim>\<open>resolve_max_bounds\<close> on itself and, through \<^verbatim>\<open>root\<close>, on every ancestor: the
  model recomputes this node right after the child returned \<^verbatim>\<open>true\<close>. The exception
  leaves the split in place.
\<close>

partial_function (option) insert_qt :: "nat \<Rightarrow> (nat \<Rightarrow> 'a::linordered_field QuadTreeAABB)
    \<Rightarrow> 'a QuadTreeObject \<Rightarrow> 'a QuadTree \<Rightarrow> ((fault + bool) \<times> 'a QuadTree) option" where
  "insert_qt C u ob n =
     (if intersects (bounds (node_of n)) (bounds_obj ob) then
        if object_count (node_of n) \<ge> C then
          (case split_parts C u n of (nd, c0, c1, c2, c3) \<Rightarrow>
             Option.bind (insert_qt C u ob c0) (\<lambda>(r0, d0).
               case r0 of
                 Inl e \<Rightarrow> Some (Inl e, Quad nd d0 c1 c2 c3)
               | Inr b0 \<Rightarrow>
                   if b0 then Some (Inr True, resolve_max_bounds (Quad nd d0 c1 c2 c3))
                   else Option.bind (insert_qt C u ob c1) (\<lambda>(r1, d1).
               case r1 of
                 Inl e \<Rightarrow> Some (Inl e, Quad nd d0 d1 c2 c3)
               | Inr b1 \<Rightarrow>
                   if b1 then Some (Inr True, resolve_max_bounds (Quad nd d0 d1 c2 c3))
                   else Option.bind (insert_qt C u ob c2) (\<lambda>(r2, d2).
               case r2 of
                 Inl e \<Rightarrow> Some (Inl e, Quad nd d0 d1 d2 c3)
               | Inr b2 \<Rightarrow>
                   if b2 then Some (Inr True, resolve_max_bounds (Quad nd d0 d1 d2 c3))
                   else Option.bind (insert_qt C u ob c3) (\<lambda>(r3, d3).
               case r3 of
                 Inl e \<Rightarrow> Some (Inl e, Quad nd d0 d1 d2 d3)
               | Inr b3 \<Rightarrow>
                   if b3 then Some (Inr True, resolve_max_bounds (Quad nd d0 d1 d2 d3))
                   else Some (Inl OutOfRange, Quad nd d0 d1 d2 d3))))))
        else
          (case place_node ob (node_of n) (get_children n) of
             Some nd' \<Rightarrow> Some (Inr True, with_fields n nd')
           | None \<Rightarrow> Some (Inr False, n))
      else Some (Inr False, n))"

section \<open>\<^verbatim>\<open>remove\<close>\<close>

text \<open>The scan of \<^verbatim>\<open>remove\<close>: the first slot that is live and has the id is tombstoned.
  \<open>None\<close>: no slot matched.\<close>

fun tombstone :: "nat \<Rightarrow> 'a QuadTreeObject list \<Rightarrow> 'a QuadTreeObject list option" where
  "tombstone i [] = None"
| "tombstone i (s # ss) =
     (if \<not> removed s \<and> id_obj s = i then Some (s\<lparr>removed := True\<rparr> # ss)
      else map_option ((#) s) (tombstone i ss))"

text \<open>The block under \<^verbatim>\<open>if (object_count > 0)\<close>: on a match \<^verbatim>\<open>object_count--\<close>,
  \<^verbatim>\<open>remove_empty_nodes()\<close>, \<^verbatim>\<open>resolve_max_bounds()\<close>. \<open>None\<close>: control goes on to
  \<^verbatim>\<open>if (has_children)\<close>.\<close>

definition remove_own :: "'a::linordered_field QuadTreeObject \<Rightarrow> 'a QuadTree \<Rightarrow> 'a QuadTree option" where
  "remove_own ob n =
     (if object_count (node_of n) > 0 then
        (case tombstone (id_obj ob) (objects (node_of n)) of
           None \<Rightarrow> None
         | Some os \<Rightarrow>
             Some (resolve_max_bounds (remove_empty_nodes
                (with_fields n ((node_of n)\<lparr>objects := os, object_count := object_count (node_of n) - 1\<rparr>)))))
      else None)"

text \<open>
  \<^verbatim>\<open>remove\<close> (\<open>remove_qt\<close>). On a node without children whose scan found nothing, control reaches the
  closing brace of the function: outcome \<open>MissingReturn\<close>, which a caller hands on (its
  own behaviour is undefined from there). As in \<open>insert_qt\<close>, a node recomputes its
  \<^verbatim>\<open>max_bounds\<close> when a child returned \<^verbatim>\<open>true\<close>.
\<close>

fun remove_qt :: "'a::linordered_field QuadTreeObject \<Rightarrow> 'a QuadTree \<Rightarrow> (fault + bool) \<times> 'a QuadTree" where
  "remove_qt ob (Leaf nd) =
     (if intersects (bounds nd) (bounds_obj ob) then
        (case remove_own ob (Leaf nd) of
           Some n' \<Rightarrow> (Inr True, n')
         | None \<Rightarrow> (Inl MissingReturn, Leaf nd))
      else (Inr False, Leaf nd))"
| "remove_qt ob (Quad nd c0 c1 c2 c3) =
     (if intersects (bounds nd) (bounds_obj ob) then
        (case remove_own ob (Quad nd c0 c1 c2 c3) of
           Some n' \<Rightarrow> (Inr True, n')
         | None \<Rightarrow>
            (case remove_qt ob c0 of
               (Inl e, d0) \<Rightarrow> (Inl e, Quad nd d0 c1 c2 c3)
             | (Inr True, d0) \<Rightarrow> (Inr True, resolve_max_bounds (Quad nd d0 c1 c2 c3))
             | (Inr False, d0) \<Rightarrow>
            (case remove_qt ob c1 of
               (Inl e, d1) \<Rightarrow> (Inl e, Quad nd d0 d1 c2 c3)
             | (Inr True, d1) \<Rightarrow> (Inr True, resolve_max_bounds (Quad nd d0 d1 c2 c3))
             | (Inr False, d1) \<Rightarrow>
            (case remove_qt ob c2 of
               (Inl e, d2) \<Rightarrow> (Inl e, Quad nd d0 d1 d2 c3)
             | (Inr True, d2) \<Rightarrow> (Inr True, resolve_max_bounds (Quad nd d0 d1 d2 c3))
             | (Inr False, d2) \<Rightarrow>
            (case remove_qt ob c3 of
               (Inl e, d3) \<Rightarrow> (Inl e, Quad nd d0 d1 d2 d3)
             | (Inr True, d3) \<Rightarrow> (Inr True, resolve_max_bounds (Quad nd d0 d1 d2 d3))
             | (Inr False, d3) \<Rightarrow> (Inr False, Quad nd d0 d1 d2 d3))))))
      else (Inr False, Quad nd c0 c1 c2 c3))"

section \<open>\<^verbatim>\<open>query\<close>\<close>

text \<open>The slot loop of both overloads. The output is the list of the objects written:
  \<^verbatim>\<open>_Objects[0 .. _Length)\<close> of the buffer overload (a buffer large enough, which the
  caller owes), the vector of the other.\<close>

definition hits :: "'a::linordered_field QuadTreeAABB \<Rightarrow> 'a QuadTreeObject list \<Rightarrow> 'a QuadTreeObject list" where
  "hits q os = filter (\<lambda>s. \<not> removed s \<and> intersects (bounds_obj s) q) os"

fun query_buffer :: "'a::linordered_field QuadTreeAABB \<Rightarrow> bool \<Rightarrow> 'a QuadTree
    \<Rightarrow> 'a QuadTreeObject list \<Rightarrow> 'a QuadTreeObject list" where
  "query_buffer q chk (Leaf nd) out =
     (if intersects (max_bounds nd) q \<or> \<not> chk then
        (if object_count nd < 1 then out else out @ hits q (objects nd))
      else out)"
| "query_buffer q chk (Quad nd c0 c1 c2 c3) out =
     (if intersects (max_bounds nd) q \<or> \<not> chk then
        (let out' = query_buffer q chk c3 (query_buffer q chk c2
                      (query_buffer q chk c1 (query_buffer q chk c0 out)))
         in if object_count nd < 1 then out' else out' @ hits q (objects nd))
      else out)"

fun query_vector :: "'a::linordered_field QuadTreeAABB \<Rightarrow> bool \<Rightarrow> 'a QuadTree
    \<Rightarrow> 'a QuadTreeObject list \<Rightarrow> 'a QuadTreeObject list" where
  "query_vector q chk (Leaf nd) out =
     (if intersects (bounds nd) q \<or> \<not> chk then
        (if object_count nd < 1 then out else out @ hits q (objects nd))
      else out)"
| "query_vector q chk (Quad nd c0 c1 c2 c3) out =
     (if intersects (bounds nd) q \<or> \<not> chk then
        (let out' = query_vector q chk c3 (query_vector q chk c2
                      (query_vector q chk c1 (query_vector q chk c0 out)))
         in if object_count nd < 1 then out' else out' @ hits q (objects nd))
      else out)"

declare insert_qt.simps [code]

section \<open>Notions the properties are stated with\<close>

text \<open>The closed rectangle of a box, and its area.\<close>

definition covers :: "'a::linordered_field QuadTreeAABB \<Rightarrow> 'a \<Rightarrow> 'a \<Rightarrow> bool" where
  "covers a px py = (left a \<le> px \<and> px \<le> right a \<and> top' a \<le> py \<and> py \<le> bottom a)"

definition area :: "'a::linordered_field QuadTreeAABB \<Rightarrow> 'a" where
  "area a = (right a - left a) * (bottom a - top' a)"

definition edges :: "'a QuadTreeAABB \<Rightarrow> 'a \<times> 'a \<times> 'a \<times> 'a" where
  "edges a = (left a, top' a, right a, bottom a)"

text \<open>\<open>inside a b\<close>: box \<open>b\<close> contains box \<open>a\<close> (equal edges allowed).\<close>

definition inside :: "'a::linordered_field QuadTreeAABB \<Rightarrow> 'a QuadTreeAABB \<Rightarrow> bool" where
  "inside a b = (left b \<le> left a \<and> right a \<le> right b \<and> top' b \<le> top' a \<and> bottom a \<le> bottom b)"

text \<open>The live objects of a node's own slots, and of a whole subtree (children first, as
  the queries visit them).\<close>

definition own_live :: "'a node \<Rightarrow> 'a QuadTreeObject list" where
  "own_live nd = filter (\<lambda>s. \<not> removed s) (objects nd)"

fun all_live :: "'a QuadTree \<Rightarrow> 'a QuadTreeObject list" where
  "all_live (Leaf nd) = own_live nd"
| "all_live (Quad nd c0 c1 c2 c3) =
     all_live c0 @ all_live c1 @ all_live c2 @ all_live c3 @ own_live nd"

text \<open>What a slot holds after \<^verbatim>\<open>insert\<close> copied the object into it.\<close>

definition stored :: "'a QuadTreeObject \<Rightarrow> 'a QuadTreeObject" where
  "stored ob = ob\<lparr>removed := False\<rparr>"

text \<open>The number of live objects of a subtree that carry the id \<open>i\<close>.\<close>

definition id_count :: "nat \<Rightarrow> 'a QuadTree \<Rightarrow> nat" where
  "id_count i t = length (filter (\<lambda>s. id_obj s = i) (all_live t))"

text \<open>What a node does with the outcome of the child that ended the chain of \<^verbatim>\<open>&&\<close>:
  after \<^verbatim>\<open>true\<close> its \<^verbatim>\<open>max_bounds\<close> have been recomputed, after a fault nothing more
  happens.\<close>

definition finish :: "(fault + bool) \<Rightarrow> 'a::linordered_field QuadTree \<Rightarrow> 'a QuadTree" where
  "finish r t = (if r = Inr True then resolve_max_bounds t else t)"

text \<open>The slot invariant of a node (\<^verbatim>\<open>_Capacity\<close> slots, \<^verbatim>\<open>object_count\<close> of them live),
  on every node of a tree.\<close>

definition node_ok :: "nat \<Rightarrow> 'a node \<Rightarrow> bool" where
  "node_ok C nd = (length (objects nd) = C \<and> object_count nd = length (own_live nd))"

fun slots_ok :: "nat \<Rightarrow> 'a QuadTree \<Rightarrow> bool" where
  "slots_ok C (Leaf nd) = node_ok C nd"
| "slots_ok C (Quad nd c0 c1 c2 c3) =
     (node_ok C nd \<and> slots_ok C c0 \<and> slots_ok C c1 \<and> slots_ok C c2 \<and> slots_ok C c3)"

text \<open>The trees a caller can hold: a new root, then calls of \<^verbatim>\<open>insert\<close> and \<^verbatim>\<open>remove\<close> on
  the root that returned a \<^verbatim>\<open>bool\<close>.\<close>

inductive reachable :: "nat \<Rightarrow> 'a::linordered_field QuadTree \<Rightarrow> bool" for C :: nat where
  new: "reachable C (QuadTree_new C v b)"
| ins: "reachable C t \<Longrightarrow> insert_qt C u ob t = Some (Inr r, t') \<Longrightarrow> reachable C t'"
| rem: "reachable C t \<Longrightarrow> remove_qt ob t = (Inr r, t') \<Longrightarrow> reachable C t'"

text \<open>A run of calls that all return \<^verbatim>\<open>true\<close>; \<open>None\<close> when one of them does not.\<close>

fun insert_all :: "nat \<Rightarrow> (nat \<Rightarrow> 'a::linordered_field QuadTreeAABB) \<Rightarrow> 'a QuadTreeObject list
    \<Rightarrow> 'a QuadTree \<Rightarrow> 'a QuadTree option" where
  "insert_all C u [] t = Some t"
| "insert_all C u (ob # obs) t =
     (case insert_qt C u ob t of
        Some (Inr True, t') \<Rightarrow> insert_all C u obs t'
      | _ \<Rightarrow> None)"

fun remove_all :: "'a::linordered_field QuadTreeObject list \<Rightarrow> 'a QuadTree \<Rightarrow> 'a QuadTree option" where
  "remove_all [] t = Some t"
| "remove_all (ob # obs) t =
     (case remove_qt ob t of
        (Inr True, t') \<Rightarrow> remove_all obs t'
      | _ \<Rightarrow> None)"

text \<open>The nodes of a tree, the root first.\<close>

fun subtrees :: "'a QuadTree \<Rightarrow> 'a QuadTree list" where
  "subtrees (Leaf nd) = [Leaf nd]"
| "subtrees (Quad nd c0 c1 c2 c3) =
     Quad nd c0 c1 c2 c3 # subtrees c0 @ subtrees c1 @ subtrees c2 @ subtrees c3"

text \<open>The node in which \<^verbatim>\<open>remove\<close> finds its match, as the block under
  \<^verbatim>\<open>if (object_count > 0)\<close> leaves it (tombstoned, pruned, \<^verbatim>\<open>max_bounds\<close> recomputed):
  the walk of \<open>remove_qt\<close>, which enters the first child that does not return
  \<^verbatim>\<open>false\<close>. \<open>None\<close>: the walk ends without a match.\<close>

fun match_node :: "'a::linordered_field QuadTreeObject \<Rightarrow> 'a QuadTree \<Rightarrow> 'a QuadTree option" where
  "match_node ob (Leaf nd) =
     (if intersects (bounds nd) (bounds_obj ob) then remove_own ob (Leaf nd) else None)"
| "match_node ob (Quad nd c0 c1 c2 c3) =
     (if intersects (bounds nd) (bounds_obj ob) then
        (case remove_own ob (Quad nd c0 c1 c2 c3) of
           Some n' \<Rightarrow> Some n'
         | None \<Rightarrow>
             if fst (remove_qt ob c0) \<noteq> Inr False then match_node ob c0
             else if fst (remove_qt ob c1) \<noteq> Inr False then match_node ob c1
             else if fst (remove_qt ob c2) \<noteq> Inr False then match_node ob c2
             else match_node ob c3)
      else None)"


section \<open>Example data\<close>

text \<open>Rational coordinates, the universe \<open>(0,0)-(100,100)\<close> of the specification's
  scenario, zeros in the memory that the constructors leave unwritten, and objects as a
  caller builds them (\<^verbatim>\<open>removed\<close> still at its default \<^verbatim>\<open>true\<close>).\<close>

definition universe :: "rat QuadTreeAABB" where
  "universe = child_aabb 0 0 100 100"

definition junk :: "nat \<Rightarrow> rat QuadTreeAABB" where
  "junk i = zero_aabb"

definition obj :: "nat \<Rightarrow> rat \<Rightarrow> rat \<Rightarrow> rat \<Rightarrow> rat \<Rightarrow> rat QuadTreeObject" where
  "obj i l t r b = \<lparr>bounds_obj = child_aabb l t r b, user_data = 0, removed = True, id_obj = i\<rparr>"

definition root2 :: "rat QuadTree" where
  "root2 = QuadTree_new 2 zero_aabb universe"


definition root1 :: "rat QuadTree" where
  "root1 = QuadTree_new 1 zero_aabb universe"

text \<open>The three objects of the specification's scenario.\<close>

definition objs3 :: "rat QuadTreeObject list" where
  "objs3 = [obj 1 10 10 20 20, obj 2 30 30 40 40, obj 3 60 60 70 70]"

text \<open>The capacity-one root after \<open>obj 1 10 10 20 20\<close> went into its slot.\<close>

definition full1 :: "rat QuadTree" where
  "full1 = Leaf \<lparr>bounds = universe, max_bounds = universe, object_count = 1,
                  objects = [stored (obj 1 10 10 20 20)], level = 0\<rparr>"

section \<open>Evaluation on concrete trees\<close>

text \<open>Congruence rules that make the simplifier evaluate a scrutinee before it looks
  at the branches, and the definitions it unfolds on the example data. With \<open>ex_defs\<close>
  alone \<^verbatim>\<open>max_bounds\<close> stays unevaluated, \<open>ex_bounds\<close> computes it.\<close>

lemma bind_weak_cong: "m = m' \<Longrightarrow> Option.bind m f = Option.bind m' f"
  by simp

lemma resolve_node_simps:
  "bounds (resolve_node nd cs) = bounds nd"
  "object_count (resolve_node nd cs) = object_count nd"
  "objects (resolve_node nd cs) = objects nd"
  "level (resolve_node nd cs) = level nd"
  by (simp_all add: resolve_node_def)

lemmas ex_congs = bind_weak_cong option.case_cong_weak prod.case_cong_weak
  sum.case_cong_weak bool.case_cong_weak let_weak_cong

lemmas ex_defs = root2_def root1_def full1_def QuadTree_new_def new_node_def universe_def obj_def
  child_aabb_def set_center_def set_dimensions_def zero_aabb_def intersects_def place_node_def
  empty_object_def junk_def new_child_def Let_def remove_own_def hits_def objs3_def stored_def
  resolve_node_simps numeral_2_eq_2 insert_qt.simps

lemmas ex_bounds = resolve_node_def slot_step_def child_step_def verify_def

section \<open>Subdivision\<close>

lemma split_parts_fields: "fst (split_parts C u n) = node_of n"
  by (cases n) (simp_all add: Let_def)

lemma new_child_live: "all_live (new_child C v lvl b) = []"
  by (simp add: new_child_def new_node_def own_live_def empty_object_def)

lemma new_child_total: "get_total_objects (new_child C v lvl b) = 0"
  by (simp add: new_child_def new_node_def)

lemma child_aabb_edges: "edges (child_aabb l t r b) = (l, t, r, b)"
  by (simp add: edges_def child_aabb_def set_dimensions_def set_center_def)

lemma new_child_bounds: "bounds (node_of (new_child C v lvl b)) = b"
  by (simp add: new_child_def new_node_def)

lemma tile_cover:
  fixes l t :: "'a::linordered_field"
  assumes "l \<le> x" "x \<le> r" "t \<le> y" "y \<le> b"
  shows "(l \<le> px \<and> px \<le> r \<and> t \<le> py \<and> py \<le> b) \<longleftrightarrow>
         (l \<le> px \<and> px \<le> x \<and> t \<le> py \<and> py \<le> y) \<or>
         (x \<le> px \<and> px \<le> r \<and> t \<le> py \<and> py \<le> y) \<or>
         (x \<le> px \<and> px \<le> r \<and> y \<le> py \<and> py \<le> b) \<or>
         (l \<le> px \<and> px \<le> x \<and> y \<le> py \<and> py \<le> b)"
  using assms by auto

text \<open>
  C8. A leaf whose bounds are valid and whose centre is the midpoint of its edges
  subdivides into top-left, top-right, bottom-right, bottom-left, cut at the centre; no
  two of the four boxes intersect (strict test), every point of the parent's closed
  rectangle lies in a child's and conversely, and the four areas add up to the parent's.
\<close>

theorem split_tiles_parent:
  fixes nd :: "'a::linordered_field node"
  assumes valid: "verify (bounds nd)"
    and cx: "x' (bounds nd) = (left (bounds nd) + right (bounds nd)) / 2"
    and cy: "y' (bounds nd) = (top' (bounds nd) + bottom (bounds nd)) / 2"
    and sp: "split C u (Leaf nd) = Quad nd' c0 c1 c2 c3"
    and b0: "b0 = bounds (node_of c0)" and b1: "b1 = bounds (node_of c1)"
    and b2: "b2 = bounds (node_of c2)" and b3: "b3 = bounds (node_of c3)"
    and p: "p = bounds nd"
  shows "edges b0 = (left p, top' p, x' p, y' p) \<and> edges b1 = (x' p, top' p, right p, y' p) \<and>
         edges b2 = (x' p, y' p, right p, bottom p) \<and> edges b3 = (left p, y' p, x' p, bottom p) \<and>
         verify b0 \<and> verify b1 \<and> verify b2 \<and> verify b3 \<and>
         \<not> intersects b0 b1 \<and> \<not> intersects b0 b2 \<and> \<not> intersects b0 b3 \<and>
         \<not> intersects b1 b2 \<and> \<not> intersects b1 b3 \<and> \<not> intersects b2 b3 \<and>
         (covers p px py \<longleftrightarrow> covers b0 px py \<or> covers b1 px py \<or> covers b2 px py \<or> covers b3 px py) \<and>
         area b0 + area b1 + area b2 + area b3 = area p"
proof -
  have e: "edges b0 = (left p, top' p, x' p, y' p)" "edges b1 = (x' p, top' p, right p, y' p)"
    "edges b2 = (x' p, y' p, right p, bottom p)" "edges b3 = (left p, y' p, x' p, bottom p)"
    using sp by (auto simp: split_def Let_def b0 b1 b2 b3 p new_child_bounds child_aabb_edges)
  have lr: "left p < x' p" "x' p < right p" and tb: "top' p < y' p" "y' p < bottom p"
    using valid cx cy by (simp_all add: verify_def p field_simps)
  have v: "verify b0" "verify b1" "verify b2" "verify b3"
    using e lr tb by (simp_all add: edges_def verify_def)
  have ni: "\<not> intersects b0 b1" "\<not> intersects b0 b2" "\<not> intersects b0 b3"
    "\<not> intersects b1 b2" "\<not> intersects b1 b3" "\<not> intersects b2 b3"
    using e by (simp_all add: edges_def intersects_def)
  have cov: "covers p px py \<longleftrightarrow> covers b0 px py \<or> covers b1 px py \<or> covers b2 px py \<or> covers b3 px py"
    using e tile_cover [where l = "left p" and x = "x' p" and r = "right p" and t = "top' p"
        and y = "y' p" and b = "bottom p" and px = px and py = py] lr tb
    by (simp add: edges_def covers_def)
  have ar: "area b0 + area b1 + area b2 + area b3 = area p"
    using e by (simp add: edges_def area_def algebra_simps)
  show ?thesis using e v ni cov ar by simp
qed

theorem split_tiles_parent_witness:
  "verify universe \<and> x' universe = (left universe + right universe) / 2 \<and>
   y' universe = (top' universe + bottom universe) / 2 \<and>
   (\<exists>c0 c1 c2 c3. split 2 junk root2 = Quad (node_of root2) c0 c1 c2 c3 \<and>
      edges (bounds (node_of c2)) = (50, 50, 100, 100) \<and>
      \<not> intersects (bounds (node_of c0)) (bounds (node_of c2)) \<and>
      (covers (bounds (node_of c0)) 50 20 \<or> covers (bounds (node_of c1)) 50 20 \<or>
       covers (bounds (node_of c2)) 50 20 \<or> covers (bounds (node_of c3)) 50 20))"
proof -
  let ?nd = "new_node 2 zero_aabb universe"
  have u: "edges universe = (0, 0, 100, 100)" "x' universe = 50" "y' universe = 50"
    by (simp_all add: universe_def edges_def child_aabb_def set_center_def set_dimensions_def)
  have h1: "verify (bounds ?nd)"
    using u by (simp add: new_node_def verify_def edges_def)
  have h2: "x' (bounds ?nd) = (left (bounds ?nd) + right (bounds ?nd)) / 2"
    and h3: "y' (bounds ?nd) = (top' (bounds ?nd) + bottom (bounds ?nd)) / 2"
    using u by (simp_all add: new_node_def edges_def)
  obtain c0 c1 c2 c3 where sp: "split 2 junk (Leaf ?nd) = Quad ?nd c0 c1 c2 c3"
    by (simp add: split_def Let_def)
  have c: "covers (bounds ?nd) 50 20"
    using u by (simp add: new_node_def covers_def edges_def)
  have b: "bounds ?nd = universe"
    by (simp add: new_node_def)
  from split_tiles_parent [OF h1 h2 h3 sp refl refl refl refl refl, of 50 20] c u b
  have "edges (bounds (node_of c2)) = (50, 50, 100, 100) \<and>
      \<not> intersects (bounds (node_of c0)) (bounds (node_of c2)) \<and>
      (covers (bounds (node_of c0)) 50 20 \<or> covers (bounds (node_of c1)) 50 20 \<or>
       covers (bounds (node_of c2)) 50 20 \<or> covers (bounds (node_of c3)) 50 20)"
    by (simp add: edges_def)
  with sp h1 h2 h3 b show ?thesis
    by (auto simp: root2_def QuadTree_new_def)
qed

text \<open>
  C9. \<^verbatim>\<open>split\<close> leaves the members of the node as they are (slots, \<^verbatim>\<open>object_count\<close>,
  \<^verbatim>\<open>bounds\<close>), the live objects of the subtree and their number are the same, the node
  has children afterwards, and on a node that has children already \<^verbatim>\<open>split\<close> changes
  nothing, a second call in a row included.
\<close>

theorem split_frame:
  "node_of (split C u n) = node_of n \<and>
   all_live (split C u n) = all_live n \<and>
   get_total_objects (split C u n) = get_total_objects n \<and>
   has_children (split C u n) \<and>
   split C u (Quad nd c0 c1 c2 c3) = Quad nd c0 c1 c2 c3 \<and>
   split C v (split C u n) = split C u n"
  by (cases n) (simp_all add: split_def Let_def new_child_live new_child_total)

section \<open>Case rules for \<open>insert_qt\<close> and \<open>remove_qt\<close>\<close>

text \<open>One link of the chain of \<^verbatim>\<open>&&\<close>: the child returned, and either it ended the chain
  or the next child is asked.\<close>

lemma chain_link:
  assumes "Option.bind m (\<lambda>(r, d). case r of Inl e \<Rightarrow> Some (Inl e, Q d)
             | Inr b \<Rightarrow> if b then Some (Inr True, resolve_max_bounds (Q d)) else K d) = Some y"
  obtains r d where "m = Some (r, d)" "r = Inr False \<Longrightarrow> K d = Some y"
    "r \<noteq> Inr False \<Longrightarrow> y = (r, finish r (Q d))"
proof (cases m)
  case None
  with assms show ?thesis by simp
next
  case (Some p)
  obtain r d where p: "p = (r, d)" by (cases p)
  show ?thesis
  proof (rule that [of r d])
    show "m = Some (r, d)" using Some p by simp
    show "K d = Some y" if "r = Inr False" using assms Some p that by simp
    show "y = (r, finish r (Q d))" if "r \<noteq> Inr False"
    proof (cases r)
      case (Inl e)
      with assms Some p show ?thesis by (simp add: finish_def)
    next
      case (Inr b)
      with that have "b" by simp
      with assms Some p Inr show ?thesis by (simp add: finish_def)
    qed
  qed
qed

lemma insert_qt_induct [consumes 1, case_names NoInt Place NoSlot Child0 Child1 Child2 Child3 AllFalse]:
  fixes n :: "'a::linordered_field QuadTree"
  assumes run: "insert_qt C u ob n = Some (r, n')"
    and NoInt: "\<And>n. \<not> intersects (bounds (node_of n)) (bounds_obj ob) \<Longrightarrow> P n (Inr False) n"
    and Place: "\<And>n nd'. intersects (bounds (node_of n)) (bounds_obj ob) \<Longrightarrow> object_count (node_of n) < C \<Longrightarrow>
        place_node ob (node_of n) (get_children n) = Some nd' \<Longrightarrow> P n (Inr True) (with_fields n nd')"
    and NoSlot: "\<And>n. intersects (bounds (node_of n)) (bounds_obj ob) \<Longrightarrow> object_count (node_of n) < C \<Longrightarrow>
        place_node ob (node_of n) (get_children n) = None \<Longrightarrow> P n (Inr False) n"
    and Child0: "\<And>n nd c0 c1 c2 c3 r d. intersects (bounds (node_of n)) (bounds_obj ob) \<Longrightarrow>
        C \<le> object_count (node_of n) \<Longrightarrow> split_parts C u n = (nd, c0, c1, c2, c3) \<Longrightarrow>
        P c0 r d \<Longrightarrow> r \<noteq> Inr False \<Longrightarrow> P n r (finish r (Quad nd d c1 c2 c3))"
    and Child1: "\<And>n nd c0 c1 c2 c3 r d. intersects (bounds (node_of n)) (bounds_obj ob) \<Longrightarrow>
        C \<le> object_count (node_of n) \<Longrightarrow> split_parts C u n = (nd, c0, c1, c2, c3) \<Longrightarrow>
        P c0 (Inr False) c0 \<Longrightarrow>
        P c1 r d \<Longrightarrow> r \<noteq> Inr False \<Longrightarrow> P n r (finish r (Quad nd c0 d c2 c3))"
    and Child2: "\<And>n nd c0 c1 c2 c3 r d. intersects (bounds (node_of n)) (bounds_obj ob) \<Longrightarrow>
        C \<le> object_count (node_of n) \<Longrightarrow> split_parts C u n = (nd, c0, c1, c2, c3) \<Longrightarrow>
        P c0 (Inr False) c0 \<Longrightarrow> P c1 (Inr False) c1 \<Longrightarrow>
        P c2 r d \<Longrightarrow> r \<noteq> Inr False \<Longrightarrow> P n r (finish r (Quad nd c0 c1 d c3))"
    and Child3: "\<And>n nd c0 c1 c2 c3 r d. intersects (bounds (node_of n)) (bounds_obj ob) \<Longrightarrow>
        C \<le> object_count (node_of n) \<Longrightarrow> split_parts C u n = (nd, c0, c1, c2, c3) \<Longrightarrow>
        P c0 (Inr False) c0 \<Longrightarrow> P c1 (Inr False) c1 \<Longrightarrow> P c2 (Inr False) c2 \<Longrightarrow>
        P c3 r d \<Longrightarrow> r \<noteq> Inr False \<Longrightarrow> P n r (finish r (Quad nd c0 c1 c2 d))"
    and AllFalse: "\<And>n nd c0 c1 c2 c3. intersects (bounds (node_of n)) (bounds_obj ob) \<Longrightarrow>
        C \<le> object_count (node_of n) \<Longrightarrow> split_parts C u n = (nd, c0, c1, c2, c3) \<Longrightarrow>
        P c0 (Inr False) c0 \<Longrightarrow> P c1 (Inr False) c1 \<Longrightarrow> P c2 (Inr False) c2 \<Longrightarrow>
        P c3 (Inr False) c3 \<Longrightarrow> P n (Inl OutOfRange) (Quad nd c0 c1 c2 c3)"
  shows "P n r n'"
proof -
  let ?Q = "\<lambda>(C'::nat) u' ob' m y. C' = C \<longrightarrow> u' = u \<longrightarrow> ob' = ob \<longrightarrow>
              (fst y = Inr False \<longrightarrow> snd y = m) \<and> P m (fst y) (snd y)"
  have "?Q C u ob n (r, n')"
  proof (rule insert_qt.raw_induct [where P = ?Q, OF _ run])
    fix ins and C' :: nat and u' ob' and m :: "'a QuadTree" and y
    assume IH: "\<And>a b c d e. ins a b c d = Some e \<Longrightarrow> ?Q a b c d e"
      and body: "(if intersects (bounds (node_of m)) (bounds_obj ob') then
        if C' \<le> object_count (node_of m) then
          (case split_parts C' u' m of (nd, c0, c1, c2, c3) \<Rightarrow>
             Option.bind (ins C' u' ob' c0) (\<lambda>(r0, d0).
               case r0 of
                 Inl e \<Rightarrow> Some (Inl e, Quad nd d0 c1 c2 c3)
               | Inr b0 \<Rightarrow>
                   if b0 then Some (Inr True, resolve_max_bounds (Quad nd d0 c1 c2 c3))
                   else Option.bind (ins C' u' ob' c1) (\<lambda>(r1, d1).
               case r1 of
                 Inl e \<Rightarrow> Some (Inl e, Quad nd d0 d1 c2 c3)
               | Inr b1 \<Rightarrow>
                   if b1 then Some (Inr True, resolve_max_bounds (Quad nd d0 d1 c2 c3))
                   else Option.bind (ins C' u' ob' c2) (\<lambda>(r2, d2).
               case r2 of
                 Inl e \<Rightarrow> Some (Inl e, Quad nd d0 d1 d2 c3)
               | Inr b2 \<Rightarrow>
                   if b2 then Some (Inr True, resolve_max_bounds (Quad nd d0 d1 d2 c3))
                   else Option.bind (ins C' u' ob' c3) (\<lambda>(r3, d3).
               case r3 of
                 Inl e \<Rightarrow> Some (Inl e, Quad nd d0 d1 d2 d3)
               | Inr b3 \<Rightarrow>
                   if b3 then Some (Inr True, resolve_max_bounds (Quad nd d0 d1 d2 d3))
                   else Some (Inl OutOfRange, Quad nd d0 d1 d2 d3))))))
        else
          (case place_node ob' (node_of m) (get_children m) of
             Some nd' \<Rightarrow> Some (Inr True, with_fields m nd')
           | None \<Rightarrow> Some (Inr False, m))
      else Some (Inr False, m)) = Some y"
    show "?Q C' u' ob' m y"
    proof (intro impI)
      assume eq: "C' = C" "u' = u" "ob' = ob"
      note IH' = IH [of C u ob, simplified, rule_format]
      note body = body [unfolded eq]
      show "(fst y = Inr False \<longrightarrow> snd y = m) \<and> P m (fst y) (snd y)"
      proof (cases "intersects (bounds (node_of m)) (bounds_obj ob)")
        case False
        with body NoInt [OF False] show ?thesis by auto
      next
        case int: True
        show ?thesis
        proof (cases "C \<le> object_count (node_of m)")
          case False
          with body int Place [OF int] NoSlot [OF int] show ?thesis
            by (auto split: option.splits)
        next
          case full: True
          obtain nd c0 c1 c2 c3 where sp: "split_parts C u m = (nd, c0, c1, c2, c3)"
            by (metis prod_cases5)
          from body int full sp
          have b0: "Option.bind (ins C u ob c0) (\<lambda>(r0, d0).
               case r0 of
                 Inl e \<Rightarrow> Some (Inl e, Quad nd d0 c1 c2 c3)
               | Inr b0 \<Rightarrow>
                   if b0 then Some (Inr True, resolve_max_bounds (Quad nd d0 c1 c2 c3))
                   else Option.bind (ins C u ob c1) (\<lambda>(r1, d1).
               case r1 of
                 Inl e \<Rightarrow> Some (Inl e, Quad nd d0 d1 c2 c3)
               | Inr b1 \<Rightarrow>
                   if b1 then Some (Inr True, resolve_max_bounds (Quad nd d0 d1 c2 c3))
                   else Option.bind (ins C u ob c2) (\<lambda>(r2, d2).
               case r2 of
                 Inl e \<Rightarrow> Some (Inl e, Quad nd d0 d1 d2 c3)
               | Inr b2 \<Rightarrow>
                   if b2 then Some (Inr True, resolve_max_bounds (Quad nd d0 d1 d2 c3))
                   else Option.bind (ins C u ob c3) (\<lambda>(r3, d3).
               case r3 of
                 Inl e \<Rightarrow> Some (Inl e, Quad nd d0 d1 d2 d3)
               | Inr b3 \<Rightarrow>
                   if b3 then Some (Inr True, resolve_max_bounds (Quad nd d0 d1 d2 d3))
                   else Some (Inl OutOfRange, Quad nd d0 d1 d2 d3))))) = Some y"
            by simp
          from b0 obtain r0 d0 where i0: "ins C u ob c0 = Some (r0, d0)"
            and f0: "r0 = Inr False \<Longrightarrow> Option.bind (ins C u ob c1) (\<lambda>(r1, d1).
               case r1 of
                 Inl e \<Rightarrow> Some (Inl e, Quad nd d0 d1 c2 c3)
               | Inr b1 \<Rightarrow>
                   if b1 then Some (Inr True, resolve_max_bounds (Quad nd d0 d1 c2 c3))
                   else Option.bind (ins C u ob c2) (\<lambda>(r2, d2).
               case r2 of
                 Inl e \<Rightarrow> Some (Inl e, Quad nd d0 d1 d2 c3)
               | Inr b2 \<Rightarrow>
                   if b2 then Some (Inr True, resolve_max_bounds (Quad nd d0 d1 d2 c3))
                   else Option.bind (ins C u ob c3) (\<lambda>(r3, d3).
               case r3 of
                 Inl e \<Rightarrow> Some (Inl e, Quad nd d0 d1 d2 d3)
               | Inr b3 \<Rightarrow>
                   if b3 then Some (Inr True, resolve_max_bounds (Quad nd d0 d1 d2 d3))
                   else Some (Inl OutOfRange, Quad nd d0 d1 d2 d3)))) = Some y"
            and t0: "r0 \<noteq> Inr False \<Longrightarrow> y = (r0, finish r0 (Quad nd d0 c1 c2 c3))"
            by (rule chain_link) blast
          from IH' [OF i0] have p0: "P c0 r0 d0" and u0: "r0 = Inr False \<Longrightarrow> d0 = c0" by simp_all
          show ?thesis
          proof (cases "r0 = Inr False")
            case False
            with t0 Child0 [OF int full sp p0] show ?thesis by (simp add: finish_def)
          next
            case z0: True
            from f0 [OF z0] obtain r1 d1 where i1: "ins C u ob c1 = Some (r1, d1)"
              and f1: "r1 = Inr False \<Longrightarrow> Option.bind (ins C u ob c2) (\<lambda>(r2, d2).
               case r2 of
                 Inl e \<Rightarrow> Some (Inl e, Quad nd d0 d1 d2 c3)
               | Inr b2 \<Rightarrow>
                   if b2 then Some (Inr True, resolve_max_bounds (Quad nd d0 d1 d2 c3))
                   else Option.bind (ins C u ob c3) (\<lambda>(r3, d3).
               case r3 of
                 Inl e \<Rightarrow> Some (Inl e, Quad nd d0 d1 d2 d3)
               | Inr b3 \<Rightarrow>
                   if b3 then Some (Inr True, resolve_max_bounds (Quad nd d0 d1 d2 d3))
                   else Some (Inl OutOfRange, Quad nd d0 d1 d2 d3))) = Some y"
              and t1: "r1 \<noteq> Inr False \<Longrightarrow> y = (r1, finish r1 (Quad nd d0 d1 c2 c3))"
              by (rule chain_link) blast
            from IH' [OF i1] have p1: "P c1 r1 d1" and u1: "r1 = Inr False \<Longrightarrow> d1 = c1" by simp_all
            from p0 z0 u0 have q0: "P c0 (Inr False) c0" and e0: "d0 = c0" by simp_all
            show ?thesis
            proof (cases "r1 = Inr False")
              case False
              with t1 e0 Child1 [OF int full sp q0 p1] show ?thesis by (simp add: finish_def)
            next
              case z1: True
              from f1 [OF z1] obtain r2 d2 where i2: "ins C u ob c2 = Some (r2, d2)"
                and f2: "r2 = Inr False \<Longrightarrow> Option.bind (ins C u ob c3) (\<lambda>(r3, d3).
               case r3 of
                 Inl e \<Rightarrow> Some (Inl e, Quad nd d0 d1 d2 d3)
               | Inr b3 \<Rightarrow>
                   if b3 then Some (Inr True, resolve_max_bounds (Quad nd d0 d1 d2 d3))
                   else Some (Inl OutOfRange, Quad nd d0 d1 d2 d3)) = Some y"
                and t2: "r2 \<noteq> Inr False \<Longrightarrow> y = (r2, finish r2 (Quad nd d0 d1 d2 c3))"
                by (rule chain_link) blast
              from IH' [OF i2] have p2: "P c2 r2 d2" and u2: "r2 = Inr False \<Longrightarrow> d2 = c2" by simp_all
              from p1 z1 u1 have q1: "P c1 (Inr False) c1" and e1: "d1 = c1" by simp_all
              show ?thesis
              proof (cases "r2 = Inr False")
                case False
                with t2 e0 e1 Child2 [OF int full sp q0 q1 p2] show ?thesis by (simp add: finish_def)
              next
                case z2: True
                from f2 [OF z2] obtain r3 d3 where i3: "ins C u ob c3 = Some (r3, d3)"
                  and f3: "r3 = Inr False \<Longrightarrow> Some (Inl OutOfRange, Quad nd d0 d1 d2 d3) = Some y"
                  and t3: "r3 \<noteq> Inr False \<Longrightarrow> y = (r3, finish r3 (Quad nd d0 d1 d2 d3))"
                  by (rule chain_link) blast
                from IH' [OF i3] have p3: "P c3 r3 d3" and u3: "r3 = Inr False \<Longrightarrow> d3 = c3" by simp_all
                from p2 z2 u2 have q2: "P c2 (Inr False) c2" and e2: "d2 = c2" by simp_all
                show ?thesis
                proof (cases "r3 = Inr False")
                  case False
                  with t3 e0 e1 e2 Child3 [OF int full sp q0 q1 q2 p3] show ?thesis
                    by (simp add: finish_def)
                next
                  case z3: True
                  from p3 z3 u3 have q3: "P c3 (Inr False) c3" and e3: "d3 = c3" by simp_all
                  from f3 [OF z3] e0 e1 e2 e3 AllFalse [OF int full sp q0 q1 q2 q3]
                  show ?thesis by auto
                qed
              qed
            qed
          qed
        qed
      qed
    qed
  qed
  then show ?thesis by simp
qed

lemma remove_link:
  assumes "(case p of (Inl e, d) \<Rightarrow> (Inl e, Q d)
            | (Inr True, d) \<Rightarrow> (Inr True, resolve_max_bounds (Q d))
            | (Inr False, d) \<Rightarrow> K d) = y"
  obtains r d where "p = (r, d)" "r = Inr False \<Longrightarrow> K d = y"
    "r \<noteq> Inr False \<Longrightarrow> y = (r, finish r (Q d))"
proof -
  obtain r d where p: "p = (r, d)" by (cases p)
  show ?thesis
  proof (rule that [of r d])
    show "p = (r, d)" by (rule p)
    show "K d = y" if "r = Inr False" using assms p that by simp
    show "y = (r, finish r (Q d))" if "r \<noteq> Inr False"
    proof (cases r)
      case (Inl e)
      with assms p show ?thesis by (simp add: finish_def)
    next
      case (Inr b)
      with that have "b" by simp
      with assms p Inr show ?thesis by (simp add: finish_def)
    qed
  qed
qed

lemma remove_qt_induct [consumes 1, case_names NoInt Own Miss Child0 Child1 Child2 Child3 AllFalse]:
  fixes n :: "'a::linordered_field QuadTree"
  assumes run: "remove_qt ob n = (r, n')"
    and NoInt: "\<And>n. \<not> intersects (bounds (node_of n)) (bounds_obj ob) \<Longrightarrow> P n (Inr False) n"
    and Own: "\<And>n m. intersects (bounds (node_of n)) (bounds_obj ob) \<Longrightarrow>
        remove_own ob n = Some m \<Longrightarrow> P n (Inr True) m"
    and Miss: "\<And>nd. intersects (bounds nd) (bounds_obj ob) \<Longrightarrow>
        remove_own ob (Leaf nd) = None \<Longrightarrow> P (Leaf nd) (Inl MissingReturn) (Leaf nd)"
    and Child0: "\<And>nd c0 c1 c2 c3 r d. intersects (bounds nd) (bounds_obj ob) \<Longrightarrow>
        remove_own ob (Quad nd c0 c1 c2 c3) = None \<Longrightarrow>
        remove_qt ob c0 = (r, d) \<Longrightarrow> P c0 r d \<Longrightarrow> r \<noteq> Inr False \<Longrightarrow>
        P (Quad nd c0 c1 c2 c3) r (finish r (Quad nd d c1 c2 c3))"
    and Child1: "\<And>nd c0 c1 c2 c3 r d. intersects (bounds nd) (bounds_obj ob) \<Longrightarrow>
        remove_own ob (Quad nd c0 c1 c2 c3) = None \<Longrightarrow>
        remove_qt ob c0 = (Inr False, c0) \<Longrightarrow> P c0 (Inr False) c0 \<Longrightarrow>
        remove_qt ob c1 = (r, d) \<Longrightarrow> P c1 r d \<Longrightarrow> r \<noteq> Inr False \<Longrightarrow>
        P (Quad nd c0 c1 c2 c3) r (finish r (Quad nd c0 d c2 c3))"
    and Child2: "\<And>nd c0 c1 c2 c3 r d. intersects (bounds nd) (bounds_obj ob) \<Longrightarrow>
        remove_own ob (Quad nd c0 c1 c2 c3) = None \<Longrightarrow>
        remove_qt ob c0 = (Inr False, c0) \<Longrightarrow> P c0 (Inr False) c0 \<Longrightarrow>
        remove_qt ob c1 = (Inr False, c1) \<Longrightarrow> P c1 (Inr False) c1 \<Longrightarrow>
        remove_qt ob c2 = (r, d) \<Longrightarrow> P c2 r d \<Longrightarrow> r \<noteq> Inr False \<Longrightarrow>
        P (Quad nd c0 c1 c2 c3) r (finish r (Quad nd c0 c1 d c3))"
    and Child3: "\<And>nd c0 c1 c2 c3 r d. intersects (bounds nd) (bounds_obj ob) \<Longrightarrow>
        remove_own ob (Quad nd c0 c1 c2 c3) = None \<Longrightarrow>
        remove_qt ob c0 = (Inr False, c0) \<Longrightarrow> P c0 (Inr False) c0 \<Longrightarrow>
        remove_qt ob c1 = (Inr False, c1) \<Longrightarrow> P c1 (Inr False) c1 \<Longrightarrow>
        remove_qt ob c2 = (Inr False, c2) \<Longrightarrow> P c2 (Inr False) c2 \<Longrightarrow>
        remove_qt ob c3 = (r, d) \<Longrightarrow> P c3 r d \<Longrightarrow> r \<noteq> Inr False \<Longrightarrow>
        P (Quad nd c0 c1 c2 c3) r (finish r (Quad nd c0 c1 c2 d))"
    and AllFalse: "\<And>nd c0 c1 c2 c3. intersects (bounds nd) (bounds_obj ob) \<Longrightarrow>
        remove_own ob (Quad nd c0 c1 c2 c3) = None \<Longrightarrow>
        remove_qt ob c0 = (Inr False, c0) \<Longrightarrow> P c0 (Inr False) c0 \<Longrightarrow>
        remove_qt ob c1 = (Inr False, c1) \<Longrightarrow> P c1 (Inr False) c1 \<Longrightarrow>
        remove_qt ob c2 = (Inr False, c2) \<Longrightarrow> P c2 (Inr False) c2 \<Longrightarrow>
        remove_qt ob c3 = (Inr False, c3) \<Longrightarrow> P c3 (Inr False) c3 \<Longrightarrow>
        P (Quad nd c0 c1 c2 c3) (Inr False) (Quad nd c0 c1 c2 c3)"
  shows "P n r n'"
proof -
  have "(fst (remove_qt ob n) = Inr False \<longrightarrow> snd (remove_qt ob n) = n) \<and>
        P n (fst (remove_qt ob n)) (snd (remove_qt ob n))"
  proof (induction n)
    case (Leaf nd)
    show ?case
      using NoInt [of "Leaf nd"] Own [of "Leaf nd"] Miss [of nd]
      by (auto split: option.splits)
  next
    case (Quad nd c0 c1 c2 c3)
    let ?n = "Quad nd c0 c1 c2 c3"
    let ?y = "remove_qt ob ?n"
    show ?case
    proof (cases "intersects (bounds nd) (bounds_obj ob)")
      case False
      with NoInt [of ?n] show ?thesis by simp
    next
      case int: True
      show ?thesis
      proof (cases "remove_own ob ?n")
        case (Some m)
        with int Own [of ?n m] show ?thesis by simp
      next
        case own: None
        from int own
        have b0: "(case remove_qt ob c0 of
               (Inl e, d0) \<Rightarrow> (Inl e, Quad nd d0 c1 c2 c3)
             | (Inr True, d0) \<Rightarrow> (Inr True, resolve_max_bounds (Quad nd d0 c1 c2 c3))
             | (Inr False, d0) \<Rightarrow>
            (case remove_qt ob c1 of
               (Inl e, d1) \<Rightarrow> (Inl e, Quad nd d0 d1 c2 c3)
             | (Inr True, d1) \<Rightarrow> (Inr True, resolve_max_bounds (Quad nd d0 d1 c2 c3))
             | (Inr False, d1) \<Rightarrow>
            (case remove_qt ob c2 of
               (Inl e, d2) \<Rightarrow> (Inl e, Quad nd d0 d1 d2 c3)
             | (Inr True, d2) \<Rightarrow> (Inr True, resolve_max_bounds (Quad nd d0 d1 d2 c3))
             | (Inr False, d2) \<Rightarrow>
            (case remove_qt ob c3 of
               (Inl e, d3) \<Rightarrow> (Inl e, Quad nd d0 d1 d2 d3)
             | (Inr True, d3) \<Rightarrow> (Inr True, resolve_max_bounds (Quad nd d0 d1 d2 d3))
             | (Inr False, d3) \<Rightarrow> (Inr False, Quad nd d0 d1 d2 d3))))) = ?y"
          by simp
        from b0 obtain r0 d0 where i0: "remove_qt ob c0 = (r0, d0)"
          and f0: "r0 = Inr False \<Longrightarrow> (case remove_qt ob c1 of
               (Inl e, d1) \<Rightarrow> (Inl e, Quad nd d0 d1 c2 c3)
             | (Inr True, d1) \<Rightarrow> (Inr True, resolve_max_bounds (Quad nd d0 d1 c2 c3))
             | (Inr False, d1) \<Rightarrow>
            (case remove_qt ob c2 of
               (Inl e, d2) \<Rightarrow> (Inl e, Quad nd d0 d1 d2 c3)
             | (Inr True, d2) \<Rightarrow> (Inr True, resolve_max_bounds (Quad nd d0 d1 d2 c3))
             | (Inr False, d2) \<Rightarrow>
            (case remove_qt ob c3 of
               (Inl e, d3) \<Rightarrow> (Inl e, Quad nd d0 d1 d2 d3)
             | (Inr True, d3) \<Rightarrow> (Inr True, resolve_max_bounds (Quad nd d0 d1 d2 d3))
             | (Inr False, d3) \<Rightarrow> (Inr False, Quad nd d0 d1 d2 d3)))) = ?y"
          and t0: "r0 \<noteq> Inr False \<Longrightarrow> ?y = (r0, finish r0 (Quad nd d0 c1 c2 c3))"
          by (rule remove_link) blast
        from Quad.IH(1) i0 have p0: "P c0 r0 d0" and u0: "r0 = Inr False \<Longrightarrow> d0 = c0" by simp_all
        show ?thesis
        proof (cases "r0 = Inr False")
          case False
          with t0 Child0 [OF int own i0 p0] show ?thesis by simp
        next
          case z0: True
          from p0 z0 u0 i0 have q0: "P c0 (Inr False) c0" and e0: "d0 = c0"
            and j0: "remove_qt ob c0 = (Inr False, c0)" by simp_all
          from f0 [OF z0] obtain r1 d1 where i1: "remove_qt ob c1 = (r1, d1)"
            and f1: "r1 = Inr False \<Longrightarrow> (case remove_qt ob c2 of
               (Inl e, d2) \<Rightarrow> (Inl e, Quad nd d0 d1 d2 c3)
             | (Inr True, d2) \<Rightarrow> (Inr True, resolve_max_bounds (Quad nd d0 d1 d2 c3))
             | (Inr False, d2) \<Rightarrow>
            (case remove_qt ob c3 of
               (Inl e, d3) \<Rightarrow> (Inl e, Quad nd d0 d1 d2 d3)
             | (Inr True, d3) \<Rightarrow> (Inr True, resolve_max_bounds (Quad nd d0 d1 d2 d3))
             | (Inr False, d3) \<Rightarrow> (Inr False, Quad nd d0 d1 d2 d3))) = ?y"
            and t1: "r1 \<noteq> Inr False \<Longrightarrow> ?y = (r1, finish r1 (Quad nd d0 d1 c2 c3))"
            by (rule remove_link) blast
          from Quad.IH(2) i1 have p1: "P c1 r1 d1" and u1: "r1 = Inr False \<Longrightarrow> d1 = c1" by simp_all
          show ?thesis
          proof (cases "r1 = Inr False")
            case False
            with t1 e0 Child1 [OF int own j0 q0 i1 p1] show ?thesis by simp
          next
            case z1: True
            from p1 z1 u1 i1 have q1: "P c1 (Inr False) c1" and e1: "d1 = c1"
              and j1: "remove_qt ob c1 = (Inr False, c1)" by simp_all
            from f1 [OF z1] obtain r2 d2 where i2: "remove_qt ob c2 = (r2, d2)"
              and f2: "r2 = Inr False \<Longrightarrow> (case remove_qt ob c3 of
               (Inl e, d3) \<Rightarrow> (Inl e, Quad nd d0 d1 d2 d3)
             | (Inr True, d3) \<Rightarrow> (Inr True, resolve_max_bounds (Quad nd d0 d1 d2 d3))
             | (Inr False, d3) \<Rightarrow> (Inr False, Quad nd d0 d1 d2 d3)) = ?y"
              and t2: "r2 \<noteq> Inr False \<Longrightarrow> ?y = (r2, finish r2 (Quad nd d0 d1 d2 c3))"
              by (rule remove_link) blast
            from Quad.IH(3) i2 have p2: "P c2 r2 d2" and u2: "r2 = Inr False \<Longrightarrow> d2 = c2" by simp_all
            show ?thesis
            proof (cases "r2 = Inr False")
              case False
              with t2 e0 e1 Child2 [OF int own j0 q0 j1 q1 i2 p2] show ?thesis by simp
            next
              case z2: True
              from p2 z2 u2 i2 have q2: "P c2 (Inr False) c2" and e2: "d2 = c2"
                and j2: "remove_qt ob c2 = (Inr False, c2)" by simp_all
              obtain r3 d3 where i3: "remove_qt ob c3 = (r3, d3)" by (cases "remove_qt ob c3")
              from Quad.IH(4) i3 have p3: "P c3 r3 d3" and u3: "r3 = Inr False \<Longrightarrow> d3 = c3" by simp_all
              show ?thesis
              proof (cases "r3 = Inr False")
                case False
                then have "?y = (r3, finish r3 (Quad nd d0 d1 d2 d3))"
                  using f2 [OF z2] i3 by (cases r3) (auto simp: finish_def)
                with False e0 e1 e2 Child3 [OF int own j0 q0 j1 q1 j2 q2 i3 p3] show ?thesis by simp
              next
                case z3: True
                from p3 z3 u3 i3 have q3: "P c3 (Inr False) c3" and e3: "d3 = c3"
                  and j3: "remove_qt ob c3 = (Inr False, c3)" by simp_all
                from f2 [OF z2] j3 e0 e1 e2 have "?y = (Inr False, ?n)" by simp
                with AllFalse [OF int own j0 q0 j1 q1 j2 q2 j3 q3] show ?thesis by simp
              qed
            qed
          qed
        qed
      qed
    qed
  qed
  with run show ?thesis by simp
qed

section \<open>Removal that fails\<close>

lemma remove_qt_NoInt:
  "\<not> intersects (bounds (node_of n)) (bounds_obj ob) \<Longrightarrow> remove_qt ob n = (Inr False, n)"
  by (cases n) simp_all

lemma remove_qt_false_unchanged:
  "remove_qt ob t = (r, t') \<Longrightarrow> r = Inr False \<longrightarrow> t' = t"
  by (induct t r t' rule: remove_qt_induct) simp_all

text \<open>
  C10. Whenever \<^verbatim>\<open>remove\<close> returns \<^verbatim>\<open>false\<close> the tree it was called on is the tree it
  leaves: every node with its slots, \<^verbatim>\<open>object_count\<close>, children and \<^verbatim>\<open>max_bounds\<close>.
  This holds for every tree, reachable or not.
\<close>

theorem failed_remove_unchanged:
  "remove_qt ob t = (Inr False, t') \<Longrightarrow> t' = t"
  using remove_qt_false_unchanged [of ob t "Inr False" t'] by simp

lemma failed_remove_example:
  "case insert_all 2 junk objs3 root2 of None \<Rightarrow> False
   | Some t \<Rightarrow> has_children t \<and> fst (remove_qt (obj 9 50 10 50 20) t) = Inr False"
  by (simp add: ex_defs cong: ex_congs)

theorem failed_remove_unchanged_witness:
  "case insert_all 2 junk objs3 root2 of None \<Rightarrow> False
   | Some t \<Rightarrow> has_children t \<and> remove_qt (obj 9 50 10 50 20) t = (Inr False, t)"
proof (cases "insert_all 2 junk objs3 root2")
  case None
  with failed_remove_example show ?thesis by simp
next
  case (Some t)
  with failed_remove_example have h: "has_children t"
    and f: "fst (remove_qt (obj 9 50 10 50 20) t) = Inr False" by simp_all
  from f have "remove_qt (obj 9 50 10 50 20) t = (Inr False, snd (remove_qt (obj 9 50 10 50 20) t))"
    by (simp add: prod_eq_iff)
  from this failed_remove_unchanged [OF this] have "remove_qt (obj 9 50 10 50 20) t = (Inr False, t)"
    by simp
  with Some h show ?thesis by simp
qed

section \<open>Removal that finds nothing in a leaf\<close>

lemma remove_qt_leaf_miss:
  "intersects (bounds nd) (bounds_obj ob) \<Longrightarrow> remove_own ob (Leaf nd) = None \<Longrightarrow>
   remove_qt ob (Leaf nd) = (Inl MissingReturn, Leaf nd)"
  by simp

text \<open>
  C3. On the new root \<open>(0,0)-(100,100)\<close> of capacity 2, \<^verbatim>\<open>remove\<close> of an object with
  bounds \<open>(1,1)-(2,2)\<close> and id 7: the bounds intersect, no slot is live, there are no
  children, and the call ends without a \<^verbatim>\<open>return\<close> statement instead of returning
  \<^verbatim>\<open>false\<close>.
\<close>

theorem remove_leaf_without_match_no_return:
  "intersects (bounds (node_of root2)) (bounds_obj (obj 7 1 1 2 2)) \<and>
   \<not> has_children root2 \<and> all_live root2 = [] \<and>
   remove_qt (obj 7 1 1 2 2) root2 = (Inl MissingReturn, root2)"
  by (simp add: ex_defs own_live_def cong: ex_congs)

section \<open>Insertion that no quadrant takes\<close>

lemma split_Quad_parts:
  "split C u n = Quad nd c0 c1 c2 c3 \<Longrightarrow> split_parts C u n = (nd, c0, c1, c2, c3)"
  by (cases "split_parts C u n") (simp add: split_def)

text \<open>
  C5. \<^verbatim>\<open>insert\<close> on a node whose bounds intersect the object's and whose
  \<^verbatim>\<open>object_count\<close> has reached the capacity, when each of the four children (those of
  the split, if the node had none) returns \<^verbatim>\<open>false\<close>: the call throws
  \<^verbatim>\<open>std::out_of_range\<close>; it does not return, and the node keeps its children.
\<close>

theorem insert_rejected_by_all_children_throws:
  assumes "intersects (bounds (node_of n)) (bounds_obj ob)"
    and "C \<le> object_count (node_of n)"
    and "split C u n = Quad nd c0 c1 c2 c3"
    and "insert_qt C u ob c0 = Some (Inr False, d0)"
    and "insert_qt C u ob c1 = Some (Inr False, d1)"
    and "insert_qt C u ob c2 = Some (Inr False, d2)"
    and "insert_qt C u ob c3 = Some (Inr False, d3)"
  shows "insert_qt C u ob n = Some (Inl OutOfRange, Quad nd d0 d1 d2 d3)"
  using assms split_Quad_parts [OF assms(3)]
  by (subst insert_qt.simps) simp

theorem insert_rejected_by_all_children_throws_witness:
  "intersects (bounds (node_of full1)) (bounds_obj (obj 2 50 10 50 20)) \<and>
   1 \<le> object_count (node_of full1) \<and>
   insert_qt 1 junk (obj 1 10 10 20 20) root1 = Some (Inr True, full1) \<and>
   insert_qt 1 junk (obj 2 50 10 50 20) full1 = Some (Inl OutOfRange, split 1 junk full1)"
proof -
  let ?ob = "obj 2 50 10 50 20"
  let ?c0 = "new_child 1 (junk 0) 0 (child_aabb 0 0 50 50)"
  let ?c1 = "new_child 1 (junk 1) 0 (child_aabb 50 0 100 50)"
  let ?c2 = "new_child 1 (junk 2) 0 (child_aabb 50 50 100 100)"
  let ?c3 = "new_child 1 (junk 3) 0 (child_aabb 0 50 50 100)"
  have h1: "intersects (bounds (node_of full1)) (bounds_obj ?ob)"
    and h2: "1 \<le> object_count (node_of full1)"
    by (simp_all add: ex_defs)
  have sp: "split 1 junk full1 = Quad (node_of full1) ?c0 ?c1 ?c2 ?c3"
    by (simp add: ex_defs split_def)
  have k0: "insert_qt 1 junk ?ob ?c0 = Some (Inr False, ?c0)"
    and k1: "insert_qt 1 junk ?ob ?c1 = Some (Inr False, ?c1)"
    and k2: "insert_qt 1 junk ?ob ?c2 = Some (Inr False, ?c2)"
    and k3: "insert_qt 1 junk ?ob ?c3 = Some (Inr False, ?c3)"
    by (simp_all add: ex_defs cong: ex_congs)
  have r: "insert_qt 1 junk (obj 1 10 10 20 20) root1 = Some (Inr True, full1)"
    by (simp add: ex_defs ex_bounds cong: ex_congs)
  from insert_rejected_by_all_children_throws [OF h1 h2 sp k0 k1 k2 k3] sp h1 h2 r
  show ?thesis by simp
qed

section \<open>The cached aggregate and the two queries on concrete trees\<close>

text \<open>
  C1. Capacity 2, universe \<open>(0,0)-(100,100)\<close>; insert id 1 with bounds
  \<open>(-20,10)-(10,20)\<close>, then id 2 with bounds \<open>(10,10)-(20,20)\<close>. Both calls return
  \<^verbatim>\<open>true\<close>, both objects are live in the root's slots, and the root's \<^verbatim>\<open>max_bounds\<close>
  are \<open>(0,0)-(100,100)\<close>: each pass of the slot loop of \<^verbatim>\<open>resolve_max_bounds\<close> starts
  again from \<^verbatim>\<open>bounds\<close>, so only the last live slot extends the box, and the first
  object (left edge \<open>-20\<close>) is not inside it.
\<close>

theorem max_bounds_forgets_earlier_slot:
  "case insert_all 2 junk [obj 1 (-20) 10 10 20, obj 2 10 10 20 20] root2 of None \<Rightarrow> False
   | Some t \<Rightarrow>
       all_live t = [stored (obj 1 (-20) 10 10 20), stored (obj 2 10 10 20 20)] \<and>
       edges (max_bounds (node_of t)) = (0, 0, 100, 100) \<and>
       \<not> inside (bounds_obj (obj 1 (-20) 10 10 20)) (max_bounds (node_of t))"
  by (simp add: ex_defs ex_bounds own_live_def edges_def inside_def cong: ex_congs)

text \<open>
  C2. First tree: id 1 with bounds \<open>(90,90)-(120,120)\<close> in the root; the region
  \<open>(105,105)-(110,110)\<close> intersects the object but not the root's \<^verbatim>\<open>bounds\<close>. The buffer
  overload tests \<^verbatim>\<open>max_bounds\<close> and returns the object, the vector overload tests
  \<^verbatim>\<open>bounds\<close> and returns nothing. Second tree: the one of C1; the region
  \<open>(-15,12)-(-5,15)\<close> intersects the first object, and both overloads return nothing.
\<close>

theorem queries_miss_live_objects:
  "(case insert_all 2 junk [obj 1 90 90 120 120] root2 of None \<Rightarrow> False
    | Some t \<Rightarrow>
        intersects (bounds_obj (obj 1 90 90 120 120)) (child_aabb 105 105 110 110) \<and>
        query_buffer (child_aabb 105 105 110 110) True t [] = [stored (obj 1 90 90 120 120)] \<and>
        query_vector (child_aabb 105 105 110 110) True t [] = []) \<and>
   (case insert_all 2 junk [obj 1 (-20) 10 10 20, obj 2 10 10 20 20] root2 of None \<Rightarrow> False
    | Some t \<Rightarrow>
        intersects (bounds_obj (obj 1 (-20) 10 10 20)) (child_aabb (-15) 12 (-5) 15) \<and>
        query_buffer (child_aabb (-15) 12 (-5) 15) True t [] = [] \<and>
        query_vector (child_aabb (-15) 12 (-5) 15) True t [] = [])"
  by (simp add: ex_defs ex_bounds cong: ex_congs)

section \<open>Counting the objects\<close>

lemma total_resolve: "get_total_objects (resolve_max_bounds t) = get_total_objects t"
  by (cases t) (simp_all add: resolve_node_simps)

lemma total_finish: "get_total_objects (finish r t) = get_total_objects t"
  by (simp add: finish_def total_resolve)

lemma has_children_resolve: "has_children (resolve_max_bounds t) = has_children t"
  by (cases t) simp_all

lemma place_node_count:
  "place_node ob nd cs = Some nd' \<Longrightarrow> object_count nd' = object_count nd + 1"
  by (auto simp: place_node_def Let_def resolve_node_simps split: option.splits)

lemma total_with_fields:
  "object_count nd' = object_count (node_of n) + k \<Longrightarrow>
   get_total_objects (with_fields n nd') = get_total_objects n + k"
  by (cases n) simp_all

lemma split_parts_total:
  "split_parts C u n = (nd, c0, c1, c2, c3) \<Longrightarrow>
   get_total_objects n = object_count nd +
     (get_total_objects c0 + get_total_objects c1 + get_total_objects c2 + get_total_objects c3)"
  by (cases n) (auto simp: Let_def new_child_total)

lemma insert_qt_total_gen:
  "insert_qt C u ob t = Some (r, t') \<Longrightarrow>
   r = Inr True \<longrightarrow> get_total_objects t' = get_total_objects t + 1"
proof (induct t r t' rule: insert_qt_induct)
  case (Place n nd')
  then show ?case by (simp add: total_with_fields [where k = 1] place_node_count)
qed (auto simp: total_finish dest: split_parts_total)

lemma insert_qt_total:
  "insert_qt C u ob t = Some (Inr True, t') \<Longrightarrow> get_total_objects t' = get_total_objects t + 1"
  using insert_qt_total_gen by blast

lemma total_merge: "get_total_objects t = 0 \<Longrightarrow> get_total_objects (merge t) = 0"
  by (cases t) simp_all

lemma total_remove_empty_nodes: "get_total_objects (remove_empty_nodes t) = get_total_objects t"
proof (induction t)
  case (Leaf nd)
  show ?case by simp
next
  case (Quad nd c0 c1 c2 c3)
  then show ?case by (simp add: Let_def)
qed

lemma remove_empty_nodes_leaf:
  "get_total_objects t = 0 \<Longrightarrow> \<not> has_children (remove_empty_nodes t)"
proof (cases t)
  case (Leaf nd)
  then show ?thesis by simp
next
  case (Quad nd c0 c1 c2 c3)
  assume "get_total_objects t = 0"
  with Quad show ?thesis by (simp add: Let_def total_remove_empty_nodes)
qed

lemma remove_own_total:
  "remove_own ob t = Some t' \<Longrightarrow> get_total_objects t' + 1 = get_total_objects t"
proof -
  assume a: "remove_own ob t = Some t'"
  then obtain os where pos: "0 < object_count (node_of t)"
    and t': "t' = resolve_max_bounds (remove_empty_nodes
          (with_fields t ((node_of t)\<lparr>objects := os, object_count := object_count (node_of t) - 1\<rparr>)))"
    by (auto simp: remove_own_def split: if_splits option.splits)
  have "get_total_objects (with_fields t ((node_of t)\<lparr>objects := os,
            object_count := object_count (node_of t) - 1\<rparr>)) + 1 = get_total_objects t"
    using pos by (cases t) simp_all
  then show ?thesis by (simp add: t' total_resolve total_remove_empty_nodes)
qed

lemma remove_own_leaf:
  "remove_own ob t = Some t' \<Longrightarrow> get_total_objects t' = 0 \<Longrightarrow> \<not> has_children t'"
proof -
  assume a: "remove_own ob t = Some t'" and z: "get_total_objects t' = 0"
  from a obtain m where t': "t' = resolve_max_bounds (remove_empty_nodes m)"
    by (auto simp: remove_own_def split: if_splits option.splits)
  with z have "get_total_objects m = 0" by (simp add: total_resolve total_remove_empty_nodes)
  then show ?thesis by (simp add: t' has_children_resolve remove_empty_nodes_leaf)
qed

lemma remove_qt_total_gen:
  "remove_qt ob t = (r, t') \<Longrightarrow>
   r = Inr True \<longrightarrow> get_total_objects t' + 1 = get_total_objects t"
proof (induct t r t' rule: remove_qt_induct)
  case (Own n m)
  from remove_own_total [OF Own(2)] show ?case by simp
qed (auto simp: total_finish)

lemma remove_qt_total:
  "remove_qt ob t = (Inr True, t') \<Longrightarrow> get_total_objects t' + 1 = get_total_objects t"
  using remove_qt_total_gen by blast

lemma remove_qt_own:
  "remove_qt ob t = (Inr True, t') \<Longrightarrow> remove_own ob t = Some m \<Longrightarrow> t' = m"
  by (cases t) (auto split: if_splits)

lemma insert_all_total:
  "insert_all C u obs t = Some t' \<Longrightarrow> get_total_objects t' = get_total_objects t + length obs"
proof (induction obs arbitrary: t)
  case Nil
  then show ?case by simp
next
  case (Cons ob obs)
  then obtain t1 where 1: "insert_qt C u ob t = Some (Inr True, t1)"
    and 2: "insert_all C u obs t1 = Some t'"
    by (auto split: option.splits sum.splits bool.splits)
  from Cons.IH [OF 2] insert_qt_total [OF 1] show ?case by simp
qed

lemma remove_all_total:
  "remove_all obs t = Some t' \<Longrightarrow> get_total_objects t' + length obs = get_total_objects t"
proof (induction obs arbitrary: t)
  case Nil
  then show ?case by simp
next
  case (Cons ob obs)
  then obtain t1 where 1: "remove_qt ob t = (Inr True, t1)"
    and 2: "remove_all obs t1 = Some t'"
    by (auto split: prod.splits sum.splits bool.splits)
  from Cons.IH [OF 2] remove_qt_total [OF 1] show ?case by simp
qed

lemma remove_all_snoc:
  "remove_all (pre @ [lst]) t = Some t' \<Longrightarrow>
   \<exists>tm. remove_all pre t = Some tm \<and> remove_qt lst tm = (Inr True, t')"
proof (induction pre arbitrary: t)
  case Nil
  then show ?case by (auto split: prod.splits sum.splits bool.splits)
next
  case (Cons ob pre)
  then obtain t1 where 1: "remove_qt ob t = (Inr True, t1)"
    and 2: "remove_all (pre @ [lst]) t1 = Some t'"
    by (auto split: prod.splits sum.splits bool.splits)
  from Cons.IH [OF 2] 1 show ?case by simp
qed

lemma subtrees_self: "t \<in> set (subtrees t)"
  by (cases t) simp_all

lemma subtrees_total: "m \<in> set (subtrees t) \<Longrightarrow> get_total_objects m \<le> get_total_objects t"
  by (induction t) auto

lemma subtrees_finish_child:
  "m \<in> set (subtrees c0) \<or> m \<in> set (subtrees c1) \<or> m \<in> set (subtrees c2) \<or>
   m \<in> set (subtrees c3) \<Longrightarrow> m \<in> set (subtrees (finish r (Quad nd c0 c1 c2 c3)))"
  by (auto simp: finish_def)

lemma has_children_finish_Quad: "has_children (finish r (Quad nd c0 c1 c2 c3))"
  by (simp add: finish_def)

lemma match_node_own:
  "intersects (bounds (node_of n)) (bounds_obj ob) \<Longrightarrow> remove_own ob n = Some m \<Longrightarrow>
   match_node ob n = Some m"
  by (cases n) simp_all

lemma remove_qt_match_gen:
  "remove_qt ob t = (r, t') \<Longrightarrow>
   r = Inr True \<longrightarrow>
     (\<exists>m k. match_node ob t = Some m \<and> m \<in> set (subtrees t') \<and> remove_own ob k = Some m)"
proof (induct t r t' rule: remove_qt_induct)
  case (Own n m)
  then show ?case using match_node_own [OF Own] subtrees_self [of m] by blast
next
  case (Child0 nd c0 c1 c2 c3 r d)
  then show ?case by (auto intro: subtrees_finish_child)
next
  case (Child1 nd c0 c1 c2 c3 r d)
  then show ?case by (auto intro: subtrees_finish_child)
next
  case (Child2 nd c0 c1 c2 c3 r d)
  then show ?case by (auto intro: subtrees_finish_child)
next
  case (Child3 nd c0 c1 c2 c3 r d)
  then show ?case by (auto intro: subtrees_finish_child)
qed simp_all

text \<open>After a removal that leaves the whole tree empty, the node of the match has no
  children.\<close>

lemma remove_qt_match_leaf:
  assumes "remove_qt ob t = (Inr True, t')" and "get_total_objects t' = 0"
  shows "\<exists>m. match_node ob t = Some m \<and> m \<in> set (subtrees t') \<and> \<not> has_children m"
proof -
  from remove_qt_match_gen [OF assms(1)] obtain m k where m: "match_node ob t = Some m"
    and s: "m \<in> set (subtrees t')" and k: "remove_own ob k = Some m" by blast
  from subtrees_total [OF s] assms(2) have "get_total_objects m = 0" by simp
  from remove_own_leaf [OF k this] m s show ?thesis by blast
qed

text \<open>A removal whose match is not in the node's own slots leaves the node with its
  children.\<close>

lemma remove_qt_below_keeps_children_gen:
  "remove_qt ob t = (r, t') \<Longrightarrow> r = Inr True \<longrightarrow> remove_own ob t = None \<longrightarrow> has_children t'"
  by (induct t r t' rule: remove_qt_induct) (simp_all add: has_children_finish_Quad)

lemma remove_qt_below_keeps_children:
  "remove_qt ob t = (Inr True, t') \<Longrightarrow> remove_own ob t = None \<Longrightarrow> has_children t'"
  using remove_qt_below_keeps_children_gen by blast

text \<open>
  C4, as the code has it. After inserts that all returned \<^verbatim>\<open>true\<close> into a new root and as
  many removals that all returned \<^verbatim>\<open>true\<close>, \<^verbatim>\<open>get_total_objects()\<close> of the root is 0 and
  the node in which the last removal found its match is a node of the tree without
  children: \<^verbatim>\<open>remove_empty_nodes\<close> runs on the node of the match and prunes below it,
  never above. So the root has no children when nothing was inserted and when the last
  match was in the root's own slots, and it has children when the last match was in a
  descendant.
\<close>

theorem all_removed_total_zero:
  assumes ins: "insert_all C u obs (QuadTree_new C v b) = Some t1"
    and rem: "remove_all rs t1 = Some t2"
    and len: "length rs = length obs"
  shows "get_total_objects t2 = 0 \<and>
         (obs = [] \<longrightarrow> \<not> has_children t2) \<and>
         (\<forall>pre lst tm. rs = pre @ [lst] \<longrightarrow> remove_all pre t1 = Some tm \<longrightarrow>
            (\<exists>m. match_node lst tm = Some m \<and> m \<in> set (subtrees t2) \<and> \<not> has_children m) \<and>
            (remove_own lst tm \<noteq> None \<longrightarrow> \<not> has_children t2) \<and>
            (remove_own lst tm = None \<longrightarrow> has_children t2))"
proof -
  have z: "get_total_objects (QuadTree_new C v b) = 0"
    by (simp add: QuadTree_new_def new_node_def)
  from insert_all_total [OF ins] remove_all_total [OF rem] len z
  have tot: "get_total_objects t2 = 0" by simp
  have e: "\<not> has_children t2" if "obs = []"
    using that ins rem len by (auto simp: QuadTree_new_def)
  have l: "(\<exists>m. match_node lst tm = Some m \<and> m \<in> set (subtrees t2) \<and> \<not> has_children m) \<and>
       (remove_own lst tm \<noteq> None \<longrightarrow> \<not> has_children t2) \<and>
       (remove_own lst tm = None \<longrightarrow> has_children t2)"
    if "rs = pre @ [lst]" "remove_all pre t1 = Some tm" for pre lst tm
  proof -
    from rem that(1) remove_all_snoc [of pre lst t1 t2] that(2)
    have r: "remove_qt lst tm = (Inr True, t2)" by auto
    have a: "\<not> has_children t2" if "remove_own lst tm \<noteq> None"
    proof -
      from that obtain m where m: "remove_own lst tm = Some m" by auto
      from remove_qt_own [OF r m] have "t2 = m" .
      with remove_own_leaf [OF m] tot show ?thesis by simp
    qed
    from remove_qt_match_leaf [OF r tot] a remove_qt_below_keeps_children [OF r]
    show ?thesis by blast
  qed
  from tot e l show ?thesis by blast
qed

lemma all_removed_example:
  "case insert_all 2 junk objs3 root2 of None \<Rightarrow> False
   | Some t1 \<Rightarrow>
      (case remove_all [obj 3 60 60 70 70, obj 1 10 10 20 20] t1 of None \<Rightarrow> False
       | Some tm \<Rightarrow> remove_own (obj 2 30 30 40 40) tm \<noteq> None \<and>
           fst (remove_qt (obj 2 30 30 40 40) tm) = Inr True)"
  by (simp add: ex_defs cong: ex_congs)

theorem all_removed_total_zero_witness:
  "case Option.bind (insert_all 2 junk objs3 root2)
      (remove_all [obj 3 60 60 70 70, obj 1 10 10 20 20, obj 2 30 30 40 40]) of
     None \<Rightarrow> False
   | Some t \<Rightarrow> get_total_objects t = 0 \<and> \<not> has_children t"
proof -
  let ?o1 = "obj 1 10 10 20 20" and ?o2 = "obj 2 30 30 40 40" and ?o3 = "obj 3 60 60 70 70"
  from all_removed_example obtain t1 tm
    where ins: "insert_all 2 junk objs3 root2 = Some t1"
      and pre: "remove_all [?o3, ?o1] t1 = Some tm"
      and own: "remove_own ?o2 tm \<noteq> None"
      and r: "fst (remove_qt ?o2 tm) = Inr True"
    by (auto split: option.splits)
  obtain t2 where t2: "remove_qt ?o2 tm = (Inr True, t2)"
    using r by (cases "remove_qt ?o2 tm") simp
  have "remove_all ([?o3, ?o1] @ [?o2]) t1 = Some t2"
    using pre t2 by (auto split: prod.splits sum.splits bool.splits)
  then have rem: "remove_all [?o3, ?o1, ?o2] t1 = Some t2" by simp
  have len: "length [?o3, ?o1, ?o2] = length objs3" by (simp add: objs3_def)
  note inst = all_removed_total_zero [OF ins [unfolded root2_def] rem len]
  from inst have tot: "get_total_objects t2 = 0" by blast
  from inst have "[?o3, ?o1, ?o2] = [?o3, ?o1] @ [?o2] \<longrightarrow> remove_all [?o3, ?o1] t1 = Some tm \<longrightarrow>
      (remove_own ?o2 tm \<noteq> None \<longrightarrow> \<not> has_children t2)"
    by blast
  with pre own have "\<not> has_children t2" by simp
  with tot ins rem show ?thesis by simp
qed

text \<open>The claim as stated fails on the scenario's three objects removed in the order of
  their insertion: the last removal finds id 3 in the bottom-right child, and the root,
  empty by then, keeps its four children.\<close>

theorem all_removed_root_still_split:
  "case Option.bind (insert_all 2 junk objs3 root2) (remove_all objs3) of None \<Rightarrow> False
   | Some t \<Rightarrow> get_total_objects t = 0 \<and> has_children t"
  by (simp add: ex_defs cong: ex_congs)

section \<open>The slot invariant\<close>

lemma node_ok_free_slot:
  assumes "node_ok C nd" and "object_count nd < C"
  shows "\<exists>s\<in>set (objects nd). removed s"
proof (rule ccontr)
  assume "\<not> (\<exists>s\<in>set (objects nd). removed s)"
  then have "filter (\<lambda>s. \<not> removed s) (objects nd) = objects nd"
    by (simp add: filter_id_conv)
  with assms show False by (simp add: node_ok_def own_live_def)
qed

lemma place_slot_Some:
  "\<exists>s\<in>set os. removed s \<Longrightarrow> \<exists>os'. place_slot ob os = Some os'"
  by (induction os) auto

lemma place_slot_length:
  "place_slot ob os = Some os' \<Longrightarrow> length os' = length os"
  by (induction os arbitrary: os') (auto split: if_splits)

lemma stored_simps:
  "removed (stored ob) = False" "id_obj (stored ob) = id_obj ob"
  "bounds_obj (stored ob) = bounds_obj ob" "user_data (stored ob) = user_data ob"
  by (simp_all add: stored_def)

lemma place_slot_live:
  "place_slot ob os = Some os' \<Longrightarrow>
   length (filter Q (filter (\<lambda>s. \<not> removed s) os')) =
   length (filter Q (filter (\<lambda>s. \<not> removed s) os)) + (if Q (stored ob) then 1 else 0)"
proof (induction os arbitrary: os')
  case Nil
  then show ?case by simp
next
  case (Cons s ss)
  show ?case
  proof (cases "removed s")
    case True
    with Cons.prems have "os' = stored ob # ss"
      by (auto simp: stored_def)
    with True show ?thesis by (simp add: stored_simps)
  next
    case False
    with Cons.prems obtain ss' where 1: "place_slot ob ss = Some ss'" and 2: "os' = s # ss'"
      by auto
    from Cons.IH [OF 1] 2 False show ?thesis by simp
  qed
qed

lemma place_node_ok:
  assumes "place_node ob nd cs = Some nd'" and "node_ok C nd"
  shows "node_ok C nd'"
proof -
  from assms(1) obtain os where os: "place_slot ob (objects nd) = Some os"
    and nd': "nd' = (resolve_node (nd\<lparr>objects := os\<rparr>) cs)\<lparr>object_count := object_count nd + 1\<rparr>"
    by (auto simp: place_node_def Let_def resolve_node_simps split: option.splits)
  from place_slot_live [OF os, of "\<lambda>s. True"] place_slot_length [OF os] assms(2)
  show ?thesis by (simp add: nd' node_ok_def own_live_def resolve_node_simps)
qed


lemma place_node_Some:
  assumes "node_ok C nd" and "object_count nd < C"
  shows "\<exists>nd'. place_node ob nd cs = Some nd'"
proof -
  from place_slot_Some [OF node_ok_free_slot [OF assms]]
  obtain os where "place_slot ob (objects nd) = Some os" by blast
  then show ?thesis by (simp add: place_node_def Let_def)
qed

lemma node_ok_new_node: "node_ok C (new_node C v b)"
  by (simp add: node_ok_def new_node_def own_live_def empty_object_def)

lemma slots_ok_new_child: "slots_ok C (new_child C v lvl b)"
  using node_ok_new_node [of C v b] by (simp add: new_child_def node_ok_def own_live_def)

section \<open>Filling a leaf up to its capacity\<close>



section \<open>The insertion that overflows a leaf\<close>





section \<open>Capacity zero\<close>









section \<open>Every reachable tree satisfies the slot invariant\<close>

lemma slots_ok_node: "slots_ok C t \<Longrightarrow> node_ok C (node_of t)"
  by (cases t) simp_all

lemma slots_ok_resolve: "slots_ok C (resolve_max_bounds t) = slots_ok C t"
  by (cases t) (simp_all add: node_ok_def own_live_def resolve_node_simps)

lemma slots_ok_finish: "slots_ok C (finish r t) = slots_ok C t"
  by (simp add: finish_def slots_ok_resolve)

lemma slots_ok_with_fields:
  "slots_ok C n \<Longrightarrow> node_ok C nd' \<Longrightarrow> slots_ok C (with_fields n nd')"
  by (cases n) simp_all

lemma split_parts_slots_ok:
  "split_parts C u n = (nd, c0, c1, c2, c3) \<Longrightarrow> slots_ok C n \<Longrightarrow>
   node_ok C nd \<and> slots_ok C c0 \<and> slots_ok C c1 \<and> slots_ok C c2 \<and> slots_ok C c3"
  by (cases n) (auto simp: Let_def slots_ok_new_child)

lemma insert_qt_slots_ok:
  "insert_qt C u ob t = Some (r, t') \<Longrightarrow> slots_ok C t \<longrightarrow> slots_ok C t'"
proof (induct t r t' rule: insert_qt_induct)
  case (NoInt n)
  show ?case by simp
next
  case (Place n nd')
  show ?case
  proof
    assume ok: "slots_ok C n"
    from place_node_ok [OF Place(3) slots_ok_node [OF ok]]
    show "slots_ok C (with_fields n nd')" by (rule slots_ok_with_fields [OF ok])
  qed
next
  case (NoSlot n)
  show ?case by simp
next
  case (Child0 n nd c0 c1 c2 c3 r d)
  show ?case
  proof
    assume ok: "slots_ok C n"
    from split_parts_slots_ok [OF Child0(3) ok] Child0(4)
    show "slots_ok C (finish r (Quad nd d c1 c2 c3))" by (simp add: slots_ok_finish)
  qed
next
  case (Child1 n nd c0 c1 c2 c3 r d)
  show ?case
  proof
    assume ok: "slots_ok C n"
    from split_parts_slots_ok [OF Child1(3) ok] Child1(5)
    show "slots_ok C (finish r (Quad nd c0 d c2 c3))" by (simp add: slots_ok_finish)
  qed
next
  case (Child2 n nd c0 c1 c2 c3 r d)
  show ?case
  proof
    assume ok: "slots_ok C n"
    from split_parts_slots_ok [OF Child2(3) ok] Child2(6)
    show "slots_ok C (finish r (Quad nd c0 c1 d c3))" by (simp add: slots_ok_finish)
  qed
next
  case (Child3 n nd c0 c1 c2 c3 r d)
  show ?case
  proof
    assume ok: "slots_ok C n"
    from split_parts_slots_ok [OF Child3(3) ok] Child3(7)
    show "slots_ok C (finish r (Quad nd c0 c1 c2 d))" by (simp add: slots_ok_finish)
  qed
next
  case (AllFalse n nd c0 c1 c2 c3)
  show ?case
  proof
    assume ok: "slots_ok C n"
    from split_parts_slots_ok [OF AllFalse(3) ok]
    show "slots_ok C (Quad nd c0 c1 c2 c3)" by simp
  qed
qed

lemma slots_ok_merge: "slots_ok C t \<Longrightarrow> slots_ok C (merge t)"
  by (cases t) simp_all

lemma slots_ok_remove_empty_nodes: "slots_ok C t \<Longrightarrow> slots_ok C (remove_empty_nodes t)"
  by (induction t) (simp_all add: Let_def)

lemma tombstone_length: "tombstone i os = Some os' \<Longrightarrow> length os' = length os"
  by (induction os arbitrary: os') (auto split: if_splits)

lemma tombstone_live:
  "tombstone i os = Some os' \<Longrightarrow>
   length (filter (\<lambda>s. \<not> removed s) os') + 1 = length (filter (\<lambda>s. \<not> removed s) os)"
  by (induction os arbitrary: os') (auto split: if_splits)

lemma remove_own_slots_ok:
  assumes "remove_own ob t = Some t'" and "slots_ok C t"
  shows "slots_ok C t'"
proof -
  from assms(1) obtain os where pos: "0 < object_count (node_of t)"
    and ts: "tombstone (id_obj ob) (objects (node_of t)) = Some os"
    and t': "t' = resolve_max_bounds (remove_empty_nodes
          (with_fields t ((node_of t)\<lparr>objects := os, object_count := object_count (node_of t) - 1\<rparr>)))"
    by (auto simp: remove_own_def split: if_splits option.splits)
  from slots_ok_node [OF assms(2)] tombstone_length [OF ts] tombstone_live [OF ts]
  have "node_ok C ((node_of t)\<lparr>objects := os, object_count := object_count (node_of t) - 1\<rparr>)"
    by (simp add: node_ok_def own_live_def)
  from slots_ok_with_fields [OF assms(2) this] show ?thesis
    by (simp add: t' slots_ok_resolve slots_ok_remove_empty_nodes)
qed

lemma remove_qt_slots_ok:
  "remove_qt ob t = (r, t') \<Longrightarrow> slots_ok C t \<longrightarrow> slots_ok C t'"
proof (induct t r t' rule: remove_qt_induct)
  case (NoInt n)
  show ?case by simp
next
  case (Own n m)
  from remove_own_slots_ok [OF Own(2)] show ?case by simp
next
  case (Miss nd)
  show ?case by simp
next
  case (Child0 nd c0 c1 c2 c3 r d)
  then show ?case by (simp add: slots_ok_finish)
next
  case (Child1 nd c0 c1 c2 c3 r d)
  then show ?case by (simp add: slots_ok_finish)
next
  case (Child2 nd c0 c1 c2 c3 r d)
  then show ?case by (simp add: slots_ok_finish)
next
  case (Child3 nd c0 c1 c2 c3 r d)
  then show ?case by (simp add: slots_ok_finish)
next
  case (AllFalse nd c0 c1 c2 c3)
  show ?case by simp
qed

lemma reachable_slots_ok: "reachable C t \<Longrightarrow> slots_ok C t"
proof (induction rule: reachable.induct)
  case (new v b)
  show ?case by (simp add: QuadTree_new_def node_ok_new_node)
next
  case (ins t u ob r t')
  with insert_qt_slots_ok [OF ins(2)] show ?case by simp
next
  case (rem t ob r t')
  with remove_qt_slots_ok [OF rem(2)] show ?case by simp
qed

section \<open>Live objects by id\<close>

lemma own_live_resolve_node: "own_live (resolve_node nd cs) = own_live nd"
  by (simp add: own_live_def resolve_node_simps)

lemma all_live_resolve: "all_live (resolve_max_bounds t) = all_live t"
  by (cases t) (simp_all add: own_live_resolve_node)

lemma id_count_Leaf:
  "id_count i (Leaf nd) = length (filter (\<lambda>s. id_obj s = i) (own_live nd))"
  by (simp add: id_count_def)

lemma id_count_Quad:
  "id_count i (Quad nd c0 c1 c2 c3) =
   id_count i c0 + id_count i c1 + id_count i c2 + id_count i c3 +
   length (filter (\<lambda>s. id_obj s = i) (own_live nd))"
  by (simp add: id_count_def)

lemma id_count_resolve: "id_count i (resolve_max_bounds t) = id_count i t"
  by (simp add: id_count_def all_live_resolve)

lemma id_count_finish: "id_count i (finish r t) = id_count i t"
  by (simp add: finish_def id_count_resolve)

lemma id_count_new_child: "id_count i (new_child C v lvl b) = 0"
  by (simp add: id_count_def new_child_live)

lemma split_parts_id_count:
  "split_parts C u n = (nd, c0, c1, c2, c3) \<Longrightarrow>
   nd = node_of n \<and>
   id_count i n = id_count i c0 + id_count i c1 + id_count i c2 + id_count i c3 +
     length (filter (\<lambda>s. id_obj s = i) (own_live nd))"
  by (cases n) (auto simp: Let_def id_count_new_child id_count_Leaf id_count_Quad)

lemma id_count_with_fields:
  "length (filter (\<lambda>s. id_obj s = i) (own_live nd')) =
     length (filter (\<lambda>s. id_obj s = i) (own_live (node_of n))) + k \<Longrightarrow>
   id_count i (with_fields n nd') = id_count i n + k"
  by (cases n) (simp_all add: id_count_Leaf id_count_Quad)

lemma place_node_slots:
  assumes "place_node ob nd cs = Some nd'"
  obtains os where "place_slot ob (objects nd) = Some os" "objects nd' = os"
    "bounds nd' = bounds nd" "object_count nd' = object_count nd + 1"
    "max_bounds nd' = max_bounds (resolve_node (nd\<lparr>objects := os\<rparr>) cs)"
  using assms by (auto simp: place_node_def Let_def resolve_node_simps split: option.splits)

lemma place_node_own_live:
  assumes "place_node ob nd cs = Some nd'"
  shows "length (filter Q (own_live nd')) =
         length (filter Q (own_live nd)) + (if Q (stored ob) then 1 else 0)"
proof -
  from assms obtain os where 1: "place_slot ob (objects nd) = Some os" and 2: "objects nd' = os"
    by (rule place_node_slots)
  from place_slot_live [OF 1, of Q] 2 show ?thesis by (simp add: own_live_def)
qed

lemma insert_qt_id_count_gen:
  "insert_qt C u ob t = Some (r, t') \<Longrightarrow>
   r = Inr True \<longrightarrow> id_count i t' = id_count i t + (if id_obj ob = i then 1 else 0)"
proof (induct t r t' rule: insert_qt_induct)
  case (NoInt n)
  show ?case by simp
next
  case (Place n nd')
  from place_node_own_live [OF Place(3), of "\<lambda>s. id_obj s = i"]
  have "length (filter (\<lambda>s. id_obj s = i) (own_live nd')) =
     length (filter (\<lambda>s. id_obj s = i) (own_live (node_of n))) + (if id_obj ob = i then 1 else 0)"
    by (simp add: stored_simps)
  from id_count_with_fields [OF this] show ?case by simp
next
  case (NoSlot n)
  show ?case by simp
next
  case (Child0 n nd c0 c1 c2 c3 r d)
  from split_parts_id_count [OF Child0(3), of i] Child0(4)
  show ?case by (simp add: id_count_finish id_count_Quad)
next
  case (Child1 n nd c0 c1 c2 c3 r d)
  from split_parts_id_count [OF Child1(3), of i] Child1(5)
  show ?case by (simp add: id_count_finish id_count_Quad)
next
  case (Child2 n nd c0 c1 c2 c3 r d)
  from split_parts_id_count [OF Child2(3), of i] Child2(6)
  show ?case by (simp add: id_count_finish id_count_Quad)
next
  case (Child3 n nd c0 c1 c2 c3 r d)
  from split_parts_id_count [OF Child3(3), of i] Child3(7)
  show ?case by (simp add: id_count_finish id_count_Quad)
next
  case (AllFalse n nd c0 c1 c2 c3)
  show ?case by simp
qed

lemma id_count_merge: "id_count i (merge t) \<le> id_count i t"
  by (cases t) (simp_all add: id_count_Leaf id_count_Quad)

lemma id_count_remove_empty_nodes: "id_count i (remove_empty_nodes t) \<le> id_count i t"
proof (induction t)
  case (Leaf nd)
  show ?case by simp
next
  case (Quad nd c0 c1 c2 c3)
  let ?n = "Quad nd (remove_empty_nodes c0) (remove_empty_nodes c1)
              (remove_empty_nodes c2) (remove_empty_nodes c3)"
  from Quad.IH have a: "id_count i ?n \<le> id_count i (Quad nd c0 c1 c2 c3)"
    by (simp add: id_count_Quad)
  from id_count_merge [of i ?n] a have "id_count i (merge ?n) \<le> id_count i (Quad nd c0 c1 c2 c3)"
    by (rule order_trans)
  with a show ?case by (simp add: Let_def del: merge.simps)
qed

lemma tombstone_id_live:
  "tombstone i os = Some os' \<Longrightarrow>
   length (filter (\<lambda>s. id_obj s = i) (filter (\<lambda>s. \<not> removed s) os')) + 1 =
   length (filter (\<lambda>s. id_obj s = i) (filter (\<lambda>s. \<not> removed s) os))"
  by (induction os arbitrary: os') (auto split: if_splits)

lemma remove_own_id_count:
  assumes "remove_own ob t = Some t'"
  shows "id_count (id_obj ob) t' < id_count (id_obj ob) t"
proof -
  let ?i = "id_obj ob"
  from assms obtain os where ts: "tombstone ?i (objects (node_of t)) = Some os"
    and t': "t' = resolve_max_bounds (remove_empty_nodes
          (with_fields t ((node_of t)\<lparr>objects := os, object_count := object_count (node_of t) - 1\<rparr>)))"
    by (auto simp: remove_own_def split: if_splits option.splits)
  let ?m = "with_fields t ((node_of t)\<lparr>objects := os, object_count := object_count (node_of t) - 1\<rparr>)"
  from tombstone_id_live [OF ts] have "id_count ?i ?m + 1 = id_count ?i t"
    by (cases t) (simp_all add: id_count_Leaf id_count_Quad own_live_def)
  with id_count_remove_empty_nodes [of ?i ?m] show ?thesis
    by (simp add: t' id_count_resolve)
qed

lemma remove_qt_id_count_gen:
  "remove_qt ob t = (r, t') \<Longrightarrow>
   r = Inr True \<longrightarrow> id_count (id_obj ob) t' < id_count (id_obj ob) t"
proof (induct t r t' rule: remove_qt_induct)
  case (NoInt n)
  show ?case by simp
next
  case (Own n m)
  from remove_own_id_count [OF Own(2)] show ?case by simp
next
  case (Miss nd)
  show ?case by simp
next
  case (Child0 nd c0 c1 c2 c3 r d)
  then show ?case by (simp add: id_count_finish id_count_Quad)
next
  case (Child1 nd c0 c1 c2 c3 r d)
  then show ?case by (simp add: id_count_finish id_count_Quad)
next
  case (Child2 nd c0 c1 c2 c3 r d)
  then show ?case by (simp add: id_count_finish id_count_Quad)
next
  case (Child3 nd c0 c1 c2 c3 r d)
  then show ?case by (simp add: id_count_finish id_count_Quad)
next
  case (AllFalse nd c0 c1 c2 c3)
  show ?case by simp
qed

section \<open>What the queries return for an id\<close>

lemma hits_no_id:
  "length (filter (\<lambda>s. id_obj s = i) (own_live nd)) = 0 \<Longrightarrow>
   filter (\<lambda>s. id_obj s = i) (hits q (objects nd)) = []"
  by (auto simp: own_live_def hits_def filter_empty_conv)

lemma query_buffer_no_id:
  "id_count i t = 0 \<Longrightarrow>
   filter (\<lambda>s. id_obj s = i) (query_buffer q chk t out) = filter (\<lambda>s. id_obj s = i) out"
proof (induction t arbitrary: out chk)
  case (Leaf nd)
  then show ?case by (simp add: id_count_Leaf hits_no_id)
next
  case (Quad nd c0 c1 c2 c3)
  from Quad.prems have z: "id_count i c0 = 0" "id_count i c1 = 0" "id_count i c2 = 0"
    "id_count i c3 = 0" "length (filter (\<lambda>s. id_obj s = i) (own_live nd)) = 0"
    by (simp_all add: id_count_Quad)
  show ?case
    by (simp add: Let_def Quad.IH z hits_no_id)
qed

lemma query_vector_no_id:
  "id_count i t = 0 \<Longrightarrow>
   filter (\<lambda>s. id_obj s = i) (query_vector q chk t out) = filter (\<lambda>s. id_obj s = i) out"
proof (induction t arbitrary: out chk)
  case (Leaf nd)
  then show ?case by (simp add: id_count_Leaf hits_no_id)
next
  case (Quad nd c0 c1 c2 c3)
  from Quad.prems have z: "id_count i c0 = 0" "id_count i c1 = 0" "id_count i c2 = 0"
    "id_count i c3 = 0" "length (filter (\<lambda>s. id_obj s = i) (own_live nd)) = 0"
    by (simp_all add: id_count_Quad)
  show ?case
    by (simp add: Let_def Quad.IH z hits_no_id)
qed

section \<open>The recomputed aggregate contains the node's own bounds\<close>

lemma inside_refl: "inside b b"
  by (simp add: inside_def)

lemma slot_step_inside: "inside b mb \<Longrightarrow> inside b (slot_step b mb s)"
  by (simp add: slot_step_def Let_def inside_def)

lemma child_step_inside: "inside b mb \<Longrightarrow> inside b (child_step b mb c)"
  by (simp add: child_step_def Let_def inside_def min.coboundedI1 max.coboundedI1)

lemma foldl_slot_step_inside: "inside b mb \<Longrightarrow> inside b (foldl (slot_step b) mb os)"
  by (induction os arbitrary: mb) (simp_all add: slot_step_inside)

lemma foldl_child_step_inside: "inside b mb \<Longrightarrow> inside b (foldl (child_step b) mb cs)"
  by (induction cs arbitrary: mb) (simp_all add: child_step_inside)

lemma resolve_node_inside: "inside (bounds nd) (max_bounds (resolve_node nd cs))"
  by (simp add: resolve_node_def foldl_child_step_inside foldl_slot_step_inside inside_refl)

lemma region_intersects:
  "intersects b o' \<Longrightarrow> inside o' q \<Longrightarrow> inside b mb \<Longrightarrow> intersects mb q \<and> intersects b q"
  by (auto simp: intersects_def inside_def)

lemma valid_inside_intersects: "verify o' \<Longrightarrow> inside o' q \<Longrightarrow> intersects o' q"
  by (auto simp: intersects_def inside_def verify_def)

section \<open>Queries after an insertion\<close>

lemma hits_Cons:
  "hits q (s # ss) =
   (if \<not> removed s \<and> intersects (bounds_obj s) q then s # hits q ss else hits q ss)"
  by (simp add: hits_def)

lemma hits_live_no_id:
  "filter (\<lambda>s. id_obj s = i) (filter (\<lambda>s. \<not> removed s) os) = [] \<Longrightarrow>
   filter (\<lambda>s. id_obj s = i) (hits q os) = []"
  by (auto simp: hits_def filter_empty_conv)

lemma place_slot_hits:
  assumes "place_slot ob os = Some os'"
    and "filter (\<lambda>s. id_obj s = id_obj ob) (filter (\<lambda>s. \<not> removed s) os) = []"
    and "intersects (bounds_obj ob) q"
  shows "filter (\<lambda>s. id_obj s = id_obj ob) (hits q os') = [stored ob]"
  using assms(1,2)
proof (induction os arbitrary: os')
  case Nil
  then show ?case by simp
next
  case (Cons s ss)
  show ?case
  proof (cases "removed s")
    case True
    with Cons.prems(1) have os': "os' = stored ob # ss" by (auto simp: stored_def)
    from Cons.prems(2) True
    have "filter (\<lambda>s. id_obj s = id_obj ob) (filter (\<lambda>s. \<not> removed s) ss) = []" by simp
    from hits_live_no_id [OF this, of q] assms(3) show ?thesis
      by (simp add: os' hits_Cons stored_simps)
  next
    case False
    with Cons.prems(1) obtain ss' where 1: "place_slot ob ss = Some ss'" and 2: "os' = s # ss'"
      by auto
    from Cons.prems(2) False have ns: "id_obj s \<noteq> id_obj ob"
      and rest: "filter (\<lambda>s. id_obj s = id_obj ob) (filter (\<lambda>s. \<not> removed s) ss) = []"
      by (auto split: if_splits)
    from Cons.IH [OF 1 rest] ns show ?thesis by (simp add: 2 hits_Cons)
  qed
qed

lemma id_count_zero_own:
  "id_count i n = 0 \<Longrightarrow>
   filter (\<lambda>s. id_obj s = i) (filter (\<lambda>s. \<not> removed s) (objects (node_of n))) = []"
  by (cases n) (simp_all add: id_count_Leaf id_count_Quad own_live_def)

lemma query_buffer_own:
  assumes "intersects (max_bounds nd') q \<or> \<not> chk" and "1 \<le> object_count nd'"
    and "id_count i n = 0"
  shows "filter (\<lambda>s. id_obj s = i) (query_buffer q chk (with_fields n nd') out) =
         filter (\<lambda>s. id_obj s = i) out @ filter (\<lambda>s. id_obj s = i) (hits q (objects nd'))"
proof (cases n)
  case (Leaf nd)
  with assms show ?thesis by auto
next
  case (Quad nd c0 c1 c2 c3)
  with assms(3) have "id_count i c0 = 0" "id_count i c1 = 0" "id_count i c2 = 0" "id_count i c3 = 0"
    by (simp_all add: id_count_Quad)
  with Quad assms(1,2) show ?thesis by (auto simp: Let_def query_buffer_no_id)
qed

lemma query_vector_own:
  assumes "intersects (bounds nd') q \<or> \<not> chk" and "1 \<le> object_count nd'"
    and "id_count i n = 0"
  shows "filter (\<lambda>s. id_obj s = i) (query_vector q chk (with_fields n nd') out) =
         filter (\<lambda>s. id_obj s = i) out @ filter (\<lambda>s. id_obj s = i) (hits q (objects nd'))"
proof (cases n)
  case (Leaf nd)
  with assms show ?thesis by auto
next
  case (Quad nd c0 c1 c2 c3)
  with assms(3) have "id_count i c0 = 0" "id_count i c1 = 0" "id_count i c2 = 0" "id_count i c3 = 0"
    by (simp_all add: id_count_Quad)
  with Quad assms(1,2) show ?thesis by (auto simp: Let_def query_vector_no_id)
qed

lemma query_buffer_Quad_parts:
  assumes "intersects (max_bounds nd) q \<or> \<not> chk"
    and "length (filter (\<lambda>s. id_obj s = i) (own_live nd)) = 0"
    and "\<And>out. filter (\<lambda>s. id_obj s = i) (query_buffer q chk c0 out) = filter (\<lambda>s. id_obj s = i) out @ x0"
    and "\<And>out. filter (\<lambda>s. id_obj s = i) (query_buffer q chk c1 out) = filter (\<lambda>s. id_obj s = i) out @ x1"
    and "\<And>out. filter (\<lambda>s. id_obj s = i) (query_buffer q chk c2 out) = filter (\<lambda>s. id_obj s = i) out @ x2"
    and "\<And>out. filter (\<lambda>s. id_obj s = i) (query_buffer q chk c3 out) = filter (\<lambda>s. id_obj s = i) out @ x3"
  shows "filter (\<lambda>s. id_obj s = i) (query_buffer q chk (Quad nd c0 c1 c2 c3) out) =
         filter (\<lambda>s. id_obj s = i) out @ x0 @ x1 @ x2 @ x3"
  using assms(1) by (auto simp: Let_def assms(3-6) hits_no_id [OF assms(2)])

lemma query_vector_Quad_parts:
  assumes "intersects (bounds nd) q \<or> \<not> chk"
    and "length (filter (\<lambda>s. id_obj s = i) (own_live nd)) = 0"
    and "\<And>out. filter (\<lambda>s. id_obj s = i) (query_vector q chk c0 out) = filter (\<lambda>s. id_obj s = i) out @ x0"
    and "\<And>out. filter (\<lambda>s. id_obj s = i) (query_vector q chk c1 out) = filter (\<lambda>s. id_obj s = i) out @ x1"
    and "\<And>out. filter (\<lambda>s. id_obj s = i) (query_vector q chk c2 out) = filter (\<lambda>s. id_obj s = i) out @ x2"
    and "\<And>out. filter (\<lambda>s. id_obj s = i) (query_vector q chk c3 out) = filter (\<lambda>s. id_obj s = i) out @ x3"
  shows "filter (\<lambda>s. id_obj s = i) (query_vector q chk (Quad nd c0 c1 c2 c3) out) =
         filter (\<lambda>s. id_obj s = i) out @ x0 @ x1 @ x2 @ x3"
  using assms(1) by (auto simp: Let_def assms(3-6) hits_no_id [OF assms(2)])

text \<open>The path of an insertion through a node with children: the object's id is found
  in the child that took it and nowhere else.\<close>

lemma query_after_child:
  fixes nd :: "'a::linordered_field node"
  assumes int: "intersects (bounds nd) (bounds_obj ob)" and reg: "inside (bounds_obj ob) q"
    and own: "length (filter (\<lambda>s. id_obj s = i) (own_live nd)) = 0"
    and k0: "(\<forall>out. filter (\<lambda>s. id_obj s = i) (query_buffer q chk c0 out) = filter (\<lambda>s. id_obj s = i) out @ x0) \<and>
             (\<forall>out. filter (\<lambda>s. id_obj s = i) (query_vector q chk c0 out) = filter (\<lambda>s. id_obj s = i) out @ x0)"
    and k1: "(\<forall>out. filter (\<lambda>s. id_obj s = i) (query_buffer q chk c1 out) = filter (\<lambda>s. id_obj s = i) out @ x1) \<and>
             (\<forall>out. filter (\<lambda>s. id_obj s = i) (query_vector q chk c1 out) = filter (\<lambda>s. id_obj s = i) out @ x1)"
    and k2: "(\<forall>out. filter (\<lambda>s. id_obj s = i) (query_buffer q chk c2 out) = filter (\<lambda>s. id_obj s = i) out @ x2) \<and>
             (\<forall>out. filter (\<lambda>s. id_obj s = i) (query_vector q chk c2 out) = filter (\<lambda>s. id_obj s = i) out @ x2)"
    and k3: "(\<forall>out. filter (\<lambda>s. id_obj s = i) (query_buffer q chk c3 out) = filter (\<lambda>s. id_obj s = i) out @ x3) \<and>
             (\<forall>out. filter (\<lambda>s. id_obj s = i) (query_vector q chk c3 out) = filter (\<lambda>s. id_obj s = i) out @ x3)"
  shows "(\<forall>out. filter (\<lambda>s. id_obj s = i) (query_buffer q chk (resolve_max_bounds (Quad nd c0 c1 c2 c3)) out) =
            filter (\<lambda>s. id_obj s = i) out @ x0 @ x1 @ x2 @ x3) \<and>
         (\<forall>out. filter (\<lambda>s. id_obj s = i) (query_vector q chk (resolve_max_bounds (Quad nd c0 c1 c2 c3)) out) =
            filter (\<lambda>s. id_obj s = i) out @ x0 @ x1 @ x2 @ x3)"
proof -
  let ?nd = "resolve_node nd [c0, c1, c2, c3]"
  from region_intersects [OF int reg resolve_node_inside [of nd "[c0, c1, c2, c3]"]]
  have pb: "intersects (max_bounds ?nd) q \<or> \<not> chk" and pv: "intersects (bounds ?nd) q \<or> \<not> chk"
    by (simp_all add: resolve_node_simps)
  from own have own': "length (filter (\<lambda>s. id_obj s = i) (own_live ?nd)) = 0"
    by (simp add: own_live_resolve_node)
  have rb: "resolve_max_bounds (Quad nd c0 c1 c2 c3) = Quad ?nd c0 c1 c2 c3" by simp
  from k0 k1 k2 k3
  have a: "\<And>out. filter (\<lambda>s. id_obj s = i) (query_buffer q chk c0 out) = filter (\<lambda>s. id_obj s = i) out @ x0"
    "\<And>out. filter (\<lambda>s. id_obj s = i) (query_buffer q chk c1 out) = filter (\<lambda>s. id_obj s = i) out @ x1"
    "\<And>out. filter (\<lambda>s. id_obj s = i) (query_buffer q chk c2 out) = filter (\<lambda>s. id_obj s = i) out @ x2"
    "\<And>out. filter (\<lambda>s. id_obj s = i) (query_buffer q chk c3 out) = filter (\<lambda>s. id_obj s = i) out @ x3"
    and b: "\<And>out. filter (\<lambda>s. id_obj s = i) (query_vector q chk c0 out) = filter (\<lambda>s. id_obj s = i) out @ x0"
    "\<And>out. filter (\<lambda>s. id_obj s = i) (query_vector q chk c1 out) = filter (\<lambda>s. id_obj s = i) out @ x1"
    "\<And>out. filter (\<lambda>s. id_obj s = i) (query_vector q chk c2 out) = filter (\<lambda>s. id_obj s = i) out @ x2"
    "\<And>out. filter (\<lambda>s. id_obj s = i) (query_vector q chk c3 out) = filter (\<lambda>s. id_obj s = i) out @ x3"
    by blast+
  from query_buffer_Quad_parts [OF pb own' a] query_vector_Quad_parts [OF pv own' b]
  show ?thesis unfolding rb by blast
qed

lemma no_id_both:
  "id_count i c = 0 \<Longrightarrow>
   (\<forall>out. filter (\<lambda>s. id_obj s = i) (query_buffer q chk c out) = filter (\<lambda>s. id_obj s = i) out @ []) \<and>
   (\<forall>out. filter (\<lambda>s. id_obj s = i) (query_vector q chk c out) = filter (\<lambda>s. id_obj s = i) out @ [])"
  by (simp add: query_buffer_no_id query_vector_no_id)

lemma split_parts_fresh:
  assumes "split_parts C u n = (nd, c0, c1, c2, c3)" and "id_count i n = 0"
  shows "nd = node_of n" "id_count i c0 = 0" "id_count i c1 = 0" "id_count i c2 = 0"
    "id_count i c3 = 0" "length (filter (\<lambda>s. id_obj s = i) (own_live nd)) = 0"
  using split_parts_id_count [OF assms(1), of i] assms(2) by auto

lemma insert_qt_query:
  fixes t :: "'a::linordered_field QuadTree"
  assumes v: "verify (bounds_obj ob)" and reg: "inside (bounds_obj ob) q"
  shows "insert_qt C u ob t = Some (r, t') \<Longrightarrow>
    r = Inr True \<longrightarrow> id_count (id_obj ob) t = 0 \<longrightarrow>
      (\<forall>out. filter (\<lambda>s. id_obj s = id_obj ob) (query_buffer q chk t' out) =
          filter (\<lambda>s. id_obj s = id_obj ob) out @ [stored ob]) \<and>
      (\<forall>out. filter (\<lambda>s. id_obj s = id_obj ob) (query_vector q chk t' out) =
          filter (\<lambda>s. id_obj s = id_obj ob) out @ [stored ob])"
proof (induct t r t' rule: insert_qt_induct)
  case (NoInt n)
  show ?case by simp
next
  case (Place n nd')
  show ?case
  proof (intro impI)
    assume z: "id_count (id_obj ob) n = 0"
    from Place(3) obtain os where ps: "place_slot ob (objects (node_of n)) = Some os"
      and o: "objects nd' = os" and b: "bounds nd' = bounds (node_of n)"
      and c: "object_count nd' = object_count (node_of n) + 1"
      and m: "max_bounds nd' = max_bounds (resolve_node ((node_of n)\<lparr>objects := os\<rparr>) (get_children n))"
      by (rule place_node_slots)
    from resolve_node_inside [of "(node_of n)\<lparr>objects := os\<rparr>" "get_children n"]
    have "inside (bounds (node_of n)) (max_bounds nd')" by (simp add: m)
    from region_intersects [OF Place(1) reg this]
    have pb: "intersects (max_bounds nd') q \<or> \<not> chk" and pv: "intersects (bounds nd') q \<or> \<not> chk"
      by (simp_all add: b)
    from c have c1: "1 \<le> object_count nd'" by simp
    from place_slot_hits [OF ps id_count_zero_own [OF z] valid_inside_intersects [OF v reg]]
    have h: "filter (\<lambda>s. id_obj s = id_obj ob) (hits q (objects nd')) = [stored ob]"
      by (simp add: o)
    show "(\<forall>out. filter (\<lambda>s. id_obj s = id_obj ob) (query_buffer q chk (with_fields n nd') out) =
          filter (\<lambda>s. id_obj s = id_obj ob) out @ [stored ob]) \<and>
      (\<forall>out. filter (\<lambda>s. id_obj s = id_obj ob) (query_vector q chk (with_fields n nd') out) =
          filter (\<lambda>s. id_obj s = id_obj ob) out @ [stored ob])"
      by (simp add: query_buffer_own [OF pb c1 z] query_vector_own [OF pv c1 z] h)
  qed
next
  case (NoSlot n)
  show ?case by simp
next
  case (Child0 n nd c0 c1 c2 c3 r d)
  show ?case
  proof (intro impI)
    assume r: "r = Inr True" and z: "id_count (id_obj ob) n = 0"
    note f = split_parts_fresh [OF Child0(3) z]
    from Child0(1) f(1) have int: "intersects (bounds nd) (bounds_obj ob)" by simp
    from Child0(4) r f(2) have k: "(\<forall>out. filter (\<lambda>s. id_obj s = id_obj ob) (query_buffer q chk d out) =
          filter (\<lambda>s. id_obj s = id_obj ob) out @ [stored ob]) \<and>
      (\<forall>out. filter (\<lambda>s. id_obj s = id_obj ob) (query_vector q chk d out) =
          filter (\<lambda>s. id_obj s = id_obj ob) out @ [stored ob])" by simp
    from query_after_child [OF int reg f(6) k no_id_both [OF f(3)] no_id_both [OF f(4)] no_id_both [OF f(5)]]
    show "(\<forall>out. filter (\<lambda>s. id_obj s = id_obj ob) (query_buffer q chk (finish r (Quad nd d c1 c2 c3)) out) =
          filter (\<lambda>s. id_obj s = id_obj ob) out @ [stored ob]) \<and>
      (\<forall>out. filter (\<lambda>s. id_obj s = id_obj ob) (query_vector q chk (finish r (Quad nd d c1 c2 c3)) out) =
          filter (\<lambda>s. id_obj s = id_obj ob) out @ [stored ob])"
      by (simp add: finish_def r del: resolve_max_bounds.simps)
  qed
next
  case (Child1 n nd c0 c1 c2 c3 r d)
  show ?case
  proof (intro impI)
    assume r: "r = Inr True" and z: "id_count (id_obj ob) n = 0"
    note f = split_parts_fresh [OF Child1(3) z]
    from Child1(1) f(1) have int: "intersects (bounds nd) (bounds_obj ob)" by simp
    from Child1(5) r f(3) have k: "(\<forall>out. filter (\<lambda>s. id_obj s = id_obj ob) (query_buffer q chk d out) =
          filter (\<lambda>s. id_obj s = id_obj ob) out @ [stored ob]) \<and>
      (\<forall>out. filter (\<lambda>s. id_obj s = id_obj ob) (query_vector q chk d out) =
          filter (\<lambda>s. id_obj s = id_obj ob) out @ [stored ob])" by simp
    from query_after_child [OF int reg f(6) no_id_both [OF f(2)] k no_id_both [OF f(4)] no_id_both [OF f(5)]]
    show "(\<forall>out. filter (\<lambda>s. id_obj s = id_obj ob) (query_buffer q chk (finish r (Quad nd c0 d c2 c3)) out) =
          filter (\<lambda>s. id_obj s = id_obj ob) out @ [stored ob]) \<and>
      (\<forall>out. filter (\<lambda>s. id_obj s = id_obj ob) (query_vector q chk (finish r (Quad nd c0 d c2 c3)) out) =
          filter (\<lambda>s. id_obj s = id_obj ob) out @ [stored ob])"
      by (simp add: finish_def r del: resolve_max_bounds.simps)
  qed
next
  case (Child2 n nd c0 c1 c2 c3 r d)
  show ?case
  proof (intro impI)
    assume r: "r = Inr True" and z: "id_count (id_obj ob) n = 0"
    note f = split_parts_fresh [OF Child2(3) z]
    from Child2(1) f(1) have int: "intersects (bounds nd) (bounds_obj ob)" by simp
    from Child2(6) r f(4) have k: "(\<forall>out. filter (\<lambda>s. id_obj s = id_obj ob) (query_buffer q chk d out) =
          filter (\<lambda>s. id_obj s = id_obj ob) out @ [stored ob]) \<and>
      (\<forall>out. filter (\<lambda>s. id_obj s = id_obj ob) (query_vector q chk d out) =
          filter (\<lambda>s. id_obj s = id_obj ob) out @ [stored ob])" by simp
    from query_after_child [OF int reg f(6) no_id_both [OF f(2)] no_id_both [OF f(3)] k no_id_both [OF f(5)]]
    show "(\<forall>out. filter (\<lambda>s. id_obj s = id_obj ob) (query_buffer q chk (finish r (Quad nd c0 c1 d c3)) out) =
          filter (\<lambda>s. id_obj s = id_obj ob) out @ [stored ob]) \<and>
      (\<forall>out. filter (\<lambda>s. id_obj s = id_obj ob) (query_vector q chk (finish r (Quad nd c0 c1 d c3)) out) =
          filter (\<lambda>s. id_obj s = id_obj ob) out @ [stored ob])"
      by (simp add: finish_def r del: resolve_max_bounds.simps)
  qed
next
  case (Child3 n nd c0 c1 c2 c3 r d)
  show ?case
  proof (intro impI)
    assume r: "r = Inr True" and z: "id_count (id_obj ob) n = 0"
    note f = split_parts_fresh [OF Child3(3) z]
    from Child3(1) f(1) have int: "intersects (bounds nd) (bounds_obj ob)" by simp
    from Child3(7) r f(5) have k: "(\<forall>out. filter (\<lambda>s. id_obj s = id_obj ob) (query_buffer q chk d out) =
          filter (\<lambda>s. id_obj s = id_obj ob) out @ [stored ob]) \<and>
      (\<forall>out. filter (\<lambda>s. id_obj s = id_obj ob) (query_vector q chk d out) =
          filter (\<lambda>s. id_obj s = id_obj ob) out @ [stored ob])" by simp
    from query_after_child [OF int reg f(6) no_id_both [OF f(2)] no_id_both [OF f(3)] no_id_both [OF f(4)] k]
    show "(\<forall>out. filter (\<lambda>s. id_obj s = id_obj ob) (query_buffer q chk (finish r (Quad nd c0 c1 c2 d)) out) =
          filter (\<lambda>s. id_obj s = id_obj ob) out @ [stored ob]) \<and>
      (\<forall>out. filter (\<lambda>s. id_obj s = id_obj ob) (query_vector q chk (finish r (Quad nd c0 c1 c2 d)) out) =
          filter (\<lambda>s. id_obj s = id_obj ob) out @ [stored ob])"
      by (simp add: finish_def r del: resolve_max_bounds.simps)
  qed
next
  case (AllFalse n nd c0 c1 c2 c3)
  show ?case by simp
qed

section \<open>Removing what was inserted\<close>

lemma place_slot_tombstone:
  "place_slot ob os = Some os' \<Longrightarrow> tombstone (id_obj ob) os' \<noteq> None"
  by (induction os arbitrary: os') (auto split: if_splits)

lemma tombstone_None:
  "filter (\<lambda>s. id_obj s = i) (filter (\<lambda>s. \<not> removed s) os) = [] \<Longrightarrow> tombstone i os = None"
  by (induction os) (auto split: if_splits)

lemma node_of_with_fields: "node_of (with_fields n nd') = nd'"
  by (cases n) simp_all

lemma remove_qt_own_found:
  "intersects (bounds (node_of m)) (bounds_obj ob) \<Longrightarrow> remove_own ob m \<noteq> None \<Longrightarrow>
   fst (remove_qt ob m) = Inr True"
  by (cases m) auto

lemma remove_own_resolved_None:
  "length (filter (\<lambda>s. id_obj s = id_obj ob) (own_live nd)) = 0 \<Longrightarrow>
   remove_own ob (Quad (resolve_node nd cs) c0 c1 c2 c3) = None"
  by (simp add: remove_own_def resolve_node_simps own_live_def tombstone_None)

lemma remove_qt_in_child0:
  assumes "intersects (bounds nd) (bounds_obj ob)" "remove_own ob (Quad nd c0 c1 c2 c3) = None"
    and "fst (remove_qt ob c0) = Inr True"
  shows "fst (remove_qt ob (Quad nd c0 c1 c2 c3)) = Inr True"
  using assms by (cases "remove_qt ob c0") simp

lemma remove_qt_in_child1:
  assumes "intersects (bounds nd) (bounds_obj ob)" "remove_own ob (Quad nd c0 c1 c2 c3) = None"
    and "fst (remove_qt ob c0) = Inr False" "fst (remove_qt ob c1) = Inr True"
  shows "fst (remove_qt ob (Quad nd c0 c1 c2 c3)) = Inr True"
  using assms by (cases "remove_qt ob c0"; cases "remove_qt ob c1") simp

lemma remove_qt_in_child2:
  assumes "intersects (bounds nd) (bounds_obj ob)" "remove_own ob (Quad nd c0 c1 c2 c3) = None"
    and "fst (remove_qt ob c0) = Inr False" "fst (remove_qt ob c1) = Inr False"
    and "fst (remove_qt ob c2) = Inr True"
  shows "fst (remove_qt ob (Quad nd c0 c1 c2 c3)) = Inr True"
  using assms by (cases "remove_qt ob c0"; cases "remove_qt ob c1"; cases "remove_qt ob c2") simp

lemma remove_qt_in_child3:
  assumes "intersects (bounds nd) (bounds_obj ob)" "remove_own ob (Quad nd c0 c1 c2 c3) = None"
    and "fst (remove_qt ob c0) = Inr False" "fst (remove_qt ob c1) = Inr False"
    and "fst (remove_qt ob c2) = Inr False" "fst (remove_qt ob c3) = Inr True"
  shows "fst (remove_qt ob (Quad nd c0 c1 c2 c3)) = Inr True"
  using assms
  by (cases "remove_qt ob c0"; cases "remove_qt ob c1"; cases "remove_qt ob c2";
      cases "remove_qt ob c3") simp

lemma remove_qt_NoInt_fst:
  "\<not> intersects (bounds (node_of n)) (bounds_obj ob) \<Longrightarrow> fst (remove_qt ob n) = Inr False"
  by (simp add: remove_qt_NoInt)

text \<open>An insertion that returned \<^verbatim>\<open>false\<close> met bounds that do not intersect; after one that
  returned \<^verbatim>\<open>true\<close>, \<^verbatim>\<open>remove\<close> of the same object walks the same children and returns
  \<^verbatim>\<open>true\<close>.\<close>

lemma insert_then_remove:
  "insert_qt C u ob t = Some (r, t') \<Longrightarrow>
   slots_ok C t \<longrightarrow> id_count (id_obj ob) t = 0 \<longrightarrow>
     (r = Inr False \<longrightarrow> \<not> intersects (bounds (node_of t)) (bounds_obj ob)) \<and>
     (r = Inr True \<longrightarrow> fst (remove_qt ob t') = Inr True)"
proof (induct t r t' rule: insert_qt_induct)
  case (NoInt n)
  then show ?case by simp
next
  case (Place n nd')
  from Place(3) obtain os where ps: "place_slot ob (objects (node_of n)) = Some os"
    and o: "objects nd' = os" and b: "bounds nd' = bounds (node_of n)"
    and c: "object_count nd' = object_count (node_of n) + 1"
    by (rule place_node_slots)
  from place_slot_tombstone [OF ps] o c
  have "remove_own ob (with_fields n nd') \<noteq> None"
    by (auto simp: remove_own_def node_of_with_fields)
  from remove_qt_own_found [OF _ this] Place(1) b show ?case
    by (simp add: node_of_with_fields)
next
  case (NoSlot n)
  show ?case
  proof (intro impI)
    assume ok: "slots_ok C n"
    from place_node_Some [OF slots_ok_node [OF ok] NoSlot(2), of ob "get_children n"] NoSlot(3)
    show "(Inr False = Inr False \<longrightarrow> \<not> intersects (bounds (node_of n)) (bounds_obj ob)) \<and>
        (Inr False = Inr True \<longrightarrow> fst (remove_qt ob n) = Inr True)" by simp
  qed
next
  case (Child0 n nd c0 c1 c2 c3 r d)
  show ?case
  proof (intro impI)
    assume ok: "slots_ok C n" and z: "id_count (id_obj ob) n = 0"
    note f = split_parts_fresh [OF Child0(3) z] and s = split_parts_slots_ok [OF Child0(3) ok]
    let ?nd = "resolve_node nd [d, c1, c2, c3]"
    have int: "intersects (bounds ?nd) (bounds_obj ob)"
      using Child0(1) f(1) by (simp add: resolve_node_simps)
    have "fst (remove_qt ob (Quad ?nd d c1 c2 c3)) = Inr True" if "r = Inr True"
      using Child0(4) s f(2) that
      by (intro remove_qt_in_child0 [OF int remove_own_resolved_None [OF f(6)]]) simp
    with Child0(5) show "(r = Inr False \<longrightarrow> \<not> intersects (bounds (node_of n)) (bounds_obj ob)) \<and>
        (r = Inr True \<longrightarrow> fst (remove_qt ob (finish r (Quad nd d c1 c2 c3))) = Inr True)"
      by (simp add: finish_def)
  qed
next
  case (Child1 n nd c0 c1 c2 c3 r d)
  show ?case
  proof (intro impI)
    assume ok: "slots_ok C n" and z: "id_count (id_obj ob) n = 0"
    note f = split_parts_fresh [OF Child1(3) z] and s = split_parts_slots_ok [OF Child1(3) ok]
    let ?nd = "resolve_node nd [c0, d, c2, c3]"
    have int: "intersects (bounds ?nd) (bounds_obj ob)"
      using Child1(1) f(1) by (simp add: resolve_node_simps)
    from Child1(4) s f(2) have n0: "fst (remove_qt ob c0) = Inr False"
      by (simp add: remove_qt_NoInt_fst)
    have "fst (remove_qt ob (Quad ?nd c0 d c2 c3)) = Inr True" if "r = Inr True"
      using Child1(5) s f(3) that
      by (intro remove_qt_in_child1 [OF int remove_own_resolved_None [OF f(6)] n0]) simp
    with Child1(6) show "(r = Inr False \<longrightarrow> \<not> intersects (bounds (node_of n)) (bounds_obj ob)) \<and>
        (r = Inr True \<longrightarrow> fst (remove_qt ob (finish r (Quad nd c0 d c2 c3))) = Inr True)"
      by (simp add: finish_def)
  qed
next
  case (Child2 n nd c0 c1 c2 c3 r d)
  show ?case
  proof (intro impI)
    assume ok: "slots_ok C n" and z: "id_count (id_obj ob) n = 0"
    note f = split_parts_fresh [OF Child2(3) z] and s = split_parts_slots_ok [OF Child2(3) ok]
    let ?nd = "resolve_node nd [c0, c1, d, c3]"
    have int: "intersects (bounds ?nd) (bounds_obj ob)"
      using Child2(1) f(1) by (simp add: resolve_node_simps)
    from Child2(4) s f(2) have n0: "fst (remove_qt ob c0) = Inr False"
      by (simp add: remove_qt_NoInt_fst)
    from Child2(5) s f(3) have n1: "fst (remove_qt ob c1) = Inr False"
      by (simp add: remove_qt_NoInt_fst)
    have "fst (remove_qt ob (Quad ?nd c0 c1 d c3)) = Inr True" if "r = Inr True"
      using Child2(6) s f(4) that
      by (intro remove_qt_in_child2 [OF int remove_own_resolved_None [OF f(6)] n0 n1]) simp
    with Child2(7) show "(r = Inr False \<longrightarrow> \<not> intersects (bounds (node_of n)) (bounds_obj ob)) \<and>
        (r = Inr True \<longrightarrow> fst (remove_qt ob (finish r (Quad nd c0 c1 d c3))) = Inr True)"
      by (simp add: finish_def)
  qed
next
  case (Child3 n nd c0 c1 c2 c3 r d)
  show ?case
  proof (intro impI)
    assume ok: "slots_ok C n" and z: "id_count (id_obj ob) n = 0"
    note f = split_parts_fresh [OF Child3(3) z] and s = split_parts_slots_ok [OF Child3(3) ok]
    let ?nd = "resolve_node nd [c0, c1, c2, d]"
    have int: "intersects (bounds ?nd) (bounds_obj ob)"
      using Child3(1) f(1) by (simp add: resolve_node_simps)
    from Child3(4) s f(2) have n0: "fst (remove_qt ob c0) = Inr False"
      by (simp add: remove_qt_NoInt_fst)
    from Child3(5) s f(3) have n1: "fst (remove_qt ob c1) = Inr False"
      by (simp add: remove_qt_NoInt_fst)
    from Child3(6) s f(4) have n2: "fst (remove_qt ob c2) = Inr False"
      by (simp add: remove_qt_NoInt_fst)
    have "fst (remove_qt ob (Quad ?nd c0 c1 c2 d)) = Inr True" if "r = Inr True"
      using Child3(7) s f(5) that
      by (intro remove_qt_in_child3 [OF int remove_own_resolved_None [OF f(6)] n0 n1 n2]) simp
    with Child3(8) show "(r = Inr False \<longrightarrow> \<not> intersects (bounds (node_of n)) (bounds_obj ob)) \<and>
        (r = Inr True \<longrightarrow> fst (remove_qt ob (finish r (Quad nd c0 c1 c2 d))) = Inr True)"
      by (simp add: finish_def)
  qed
next
  case (AllFalse n nd c0 c1 c2 c3)
  show ?case by simp
qed

section \<open>Insert, query, remove, query\<close>

lemma count_list_by_id:
  "filter (\<lambda>s. id_obj s = id_obj x) xs = [x] \<Longrightarrow> count_list xs x = 1"
proof -
  assume a: "filter (\<lambda>s. id_obj s = id_obj x) xs = [x]"
  have "count_list xs x = count_list (filter (\<lambda>s. id_obj s = id_obj x) xs) x"
    by (induction xs) auto
  with a show ?thesis by simp
qed

lemma not_in_by_id:
  "filter (\<lambda>s. id_obj s = id_obj x) xs = [] \<Longrightarrow> x \<notin> set xs"
  by (auto simp: filter_empty_conv)

text \<open>
  C7, as the code has it. On a reachable tree in which no live object carries the id of
  \<open>ob\<close>, after an \<^verbatim>\<open>insert\<close> of \<open>ob\<close> (valid bounds) that returned \<^verbatim>\<open>true\<close>, each overload
  of \<^verbatim>\<open>query\<close> with a region that contains the bounds of \<open>ob\<close> returns one object with
  that id, the copy of \<open>ob\<close> in its slot, and returns it once; \<^verbatim>\<open>remove\<close> of \<open>ob\<close> then
  returns \<^verbatim>\<open>true\<close>, and the same queries return no object with that id.
\<close>

theorem insert_query_remove_roundtrip:
  assumes reach: "reachable C t"
    and fresh: "id_count (id_obj ob) t = 0"
    and valid: "verify (bounds_obj ob)"
    and reg: "inside (bounds_obj ob) q"
    and ins: "insert_qt C u ob t = Some (Inr True, t')"
  shows "filter (\<lambda>s. id_obj s = id_obj ob) (query_buffer q chk t' []) = [stored ob] \<and>
         filter (\<lambda>s. id_obj s = id_obj ob) (query_vector q chk t' []) = [stored ob] \<and>
         count_list (query_buffer q chk t' []) (stored ob) = 1 \<and>
         count_list (query_vector q chk t' []) (stored ob) = 1 \<and>
         (\<exists>t''. remove_qt ob t' = (Inr True, t'') \<and>
            filter (\<lambda>s. id_obj s = id_obj ob) (query_buffer q chk t'' []) = [] \<and>
            filter (\<lambda>s. id_obj s = id_obj ob) (query_vector q chk t'' []) = [] \<and>
            stored ob \<notin> set (query_buffer q chk t'' []) \<and>
            stored ob \<notin> set (query_vector q chk t'' []))"
proof -
  let ?I = "\<lambda>s. id_obj s = id_obj ob"
  from insert_qt_query [OF valid reg ins, of chk] fresh
  have qb: "filter ?I (query_buffer q chk t' []) = [stored ob]"
    and qv: "filter ?I (query_vector q chk t' []) = [stored ob]" by simp_all
  have i: "id_obj (stored ob) = id_obj ob" by (simp add: stored_simps)
  from qb qv i have cb: "count_list (query_buffer q chk t' []) (stored ob) = 1"
    and cv: "count_list (query_vector q chk t' []) (stored ob) = 1"
    by (simp_all add: count_list_by_id)
  from insert_then_remove [OF ins] reachable_slots_ok [OF reach] fresh
  have "fst (remove_qt ob t') = Inr True" by simp
  then obtain t'' where rm: "remove_qt ob t' = (Inr True, t'')"
    by (cases "remove_qt ob t'") simp
  from insert_qt_id_count_gen [OF ins, of "id_obj ob"] fresh
  have "id_count (id_obj ob) t' = 1" by simp
  with remove_qt_id_count_gen [OF rm] have z: "id_count (id_obj ob) t'' = 0" by simp
  from query_buffer_no_id [OF z, of q chk "[]"] query_vector_no_id [OF z, of q chk "[]"]
  have eb: "filter ?I (query_buffer q chk t'' []) = []"
    and ev: "filter ?I (query_vector q chk t'' []) = []" by simp_all
  from eb ev i have "stored ob \<notin> set (query_buffer q chk t'' [])"
    "stored ob \<notin> set (query_vector q chk t'' [])"
    by (simp_all add: not_in_by_id)
  with qb qv cb cv rm eb ev show ?thesis by blast
qed

lemma roundtrip_example:
  "id_count 1 root2 = 0 \<and> verify (bounds_obj (obj 1 10 10 20 20)) \<and>
   inside (bounds_obj (obj 1 10 10 20 20)) universe \<and>
   (case insert_qt 2 junk (obj 1 10 10 20 20) root2 of None \<Rightarrow> False
    | Some (r, t') \<Rightarrow> r = Inr True)"
  by (simp add: ex_defs verify_def inside_def id_count_def own_live_def cong: ex_congs)

theorem insert_query_remove_roundtrip_witness:
  "\<exists>t'. insert_qt 2 junk (obj 1 10 10 20 20) root2 = Some (Inr True, t') \<and>
     reachable 2 root2 \<and>
     filter (\<lambda>s. id_obj s = 1) (query_buffer universe True t' []) = [stored (obj 1 10 10 20 20)] \<and>
     filter (\<lambda>s. id_obj s = 1) (query_vector universe True t' []) = [stored (obj 1 10 10 20 20)] \<and>
     (\<exists>t''. remove_qt (obj 1 10 10 20 20) t' = (Inr True, t'') \<and>
        filter (\<lambda>s. id_obj s = 1) (query_buffer universe True t'' []) = [] \<and>
        filter (\<lambda>s. id_obj s = 1) (query_vector universe True t'' []) = [])"
proof -
  let ?ob = "obj 1 10 10 20 20"
  have reach: "reachable 2 root2" unfolding root2_def by (rule reachable.new)
  have i: "id_obj ?ob = 1" by (simp add: obj_def)
  from roundtrip_example i have fresh: "id_count (id_obj ?ob) root2 = 0"
    and valid: "verify (bounds_obj ?ob)" and reg: "inside (bounds_obj ?ob) universe"
    by simp_all
  from roundtrip_example obtain t' where ins: "insert_qt 2 junk ?ob root2 = Some (Inr True, t')"
    by (auto split: option.splits)
  from insert_query_remove_roundtrip [OF reach fresh valid reg ins, of True] ins reach i
  show ?thesis by auto
qed

text \<open>The claim as stated fails when the id is already live in the tree: the same object
  inserted twice (both calls return \<^verbatim>\<open>true\<close>) is returned twice by each overload, and
  once after one \<^verbatim>\<open>remove\<close>.\<close>

theorem duplicate_id_returned_twice:
  "case insert_all 2 junk [obj 1 10 10 20 20, obj 1 10 10 20 20] root2 of None \<Rightarrow> False
   | Some t \<Rightarrow>
       query_buffer universe True t [] = [stored (obj 1 10 10 20 20), stored (obj 1 10 10 20 20)] \<and>
       query_vector universe True t [] = [stored (obj 1 10 10 20 20), stored (obj 1 10 10 20 20)] \<and>
       (case remove_qt (obj 1 10 10 20 20) t of (r, t') \<Rightarrow>
          r = Inr True \<and> query_vector universe True t' [] = [stored (obj 1 10 10 20 20)])"
  by (simp add: ex_defs ex_bounds cong: ex_congs)

end
